theory Spec2Isabelle
  imports Complex_Main
begin

section \<open>Nine Men's Morris: the rules engine of \<open>game.py\<close>\<close>

text \<open>
  A shallow embedding of the class \<open>NineMensMorrisEnv\<close>. The object's attributes are the
  fields of the record \<open>env\<close>; every method that mutates the object takes the record and
  returns the updated one. Players are the integers \<open>1\<close> and \<open>-1\<close>, a cell of the board holds
  \<open>0\<close>, \<open>1\<close> or \<open>-1\<close>, as in the source. The three dictionaries keyed by the player
  (\<open>player_phase\<close>, \<open>pieces_in_hand\<close>, \<open>pieces_on_board\<close>) are functions on \<open>int\<close>; the
  source only ever reads and writes them at the keys \<open>1\<close> and \<open>-1\<close> as long as
  \<open>current_player\<close> is one of the two (predicate \<open>well_formed\<close> below). The phase strings
  \<open>'placement'\<close>, \<open>'movement'\<close>, \<open>'flying'\<close> are the datatype \<open>phase\<close>. An action is the
  Python tuple \<open>(action_type, from_pos, to_pos)\<close>, with \<open>None\<close> as \<open>None\<close>. Rewards are the
  source's decimal constants as exact rationals (float rounding is not modelled). The
  attribute \<open>move_history\<close>, a log of formatted strings nothing in the engine reads, is
  left out.
\<close>

subsection \<open>Constants\<close>

datatype phase = Placement | Movement | Flying

datatype error = IndexError | TypeError | ValueError

type_synonym action = "string \<times> int option \<times> int option"

definition BOARD_POSITIONS :: nat where
  "BOARD_POSITIONS = 24"

definition PIECES_PER_PLAYER :: int where
  "PIECES_PER_PLAYER = 9"

definition MILLS :: "nat list list" where
  "MILLS =
    [[0,1,2], [3,4,5], [6,7,8], [9,10,11], [12,13,14], [15,16,17], [18,19,20], [21,22,23],
     [0,9,21], [3,10,18], [6,11,15], [1,4,7], [16,19,22], [8,12,17], [5,13,20], [2,14,23]]"

text \<open>The dictionary \<open>ADJACENCY\<close> has the keys \<open>0..23\<close> in order: entry \<open>i\<close> of the list is
  the value at key \<open>i\<close>. The source only looks it up at positions of \<open>range(24)\<close>.\<close>

definition ADJACENCY :: "nat list list" where
  "ADJACENCY =
    [[1,9], [0,2,4], [1,14], [4,10], [1,3,5,7], [4,13],
     [7,11], [4,6,8], [7,12], [0,10,21], [3,9,11,18],
     [6,10,15], [8,13,17], [5,12,14,20], [2,13,23],
     [11,16], [15,17,19], [12,16], [10,19], [16,18,20,22],
     [13,19], [9,22], [19,21,23], [14,22]]"

definition ACTION_PLACEMENT_START :: int where
  "ACTION_PLACEMENT_START = 0"

definition ACTION_MOVEMENT_START :: int where
  "ACTION_MOVEMENT_START = 24"

definition ACTION_CAPTURE_START :: int where
  "ACTION_CAPTURE_START = 600"

definition ACTION_SPACE_SIZE :: int where
  "ACTION_SPACE_SIZE = 624"

subsection \<open>The environment\<close>

record env =
  board :: "int list"
  global_phase :: phase
  player_phase :: "int \<Rightarrow> phase"
  current_player :: int
  pieces_in_hand :: "int \<Rightarrow> int"
  pieces_on_board :: "int \<Rightarrow> int"
  winner :: "int option"
  move_count :: int
  last_mill_formed :: bool
  last_capture :: bool

text \<open>\<open>reset\<close>: the fresh session. The dictionaries are created with the keys \<open>1\<close> and
  \<open>-1\<close> only; the functions take the same value elsewhere.\<close>

definition reset :: env where
  "reset =
    \<lparr> board = replicate BOARD_POSITIONS 0,
      global_phase = Placement,
      player_phase = (\<lambda>_. Placement),
      current_player = 1,
      pieces_in_hand = (\<lambda>_. PIECES_PER_PLAYER),
      pieces_on_board = (\<lambda>_. 0),
      winner = None,
      move_count = 0,
      last_mill_formed = False,
      last_capture = False \<rparr>"

text \<open>The shape the constructor fixes and no method changes: 24 cells, and a current player
  that is a key of the dictionaries.\<close>

definition well_formed :: "env \<Rightarrow> bool" where
  "well_formed s \<longleftrightarrow>
     length (board s) = BOARD_POSITIONS \<and> (current_player s = 1 \<or> current_player s = -1)"

subsection \<open>The state encoder\<close>

text \<open>\<open>get_state\<close>: a 7 x 24 array of zeros whose rows are then assigned one by one.
  \<open>(self.board == p).astype(np.float32)\<close> is the 0/1 indicator of the cells equal to \<open>p\<close>.\<close>

definition indicator :: "int list \<Rightarrow> int \<Rightarrow> rat list" where
  "indicator b p = map (\<lambda>c. if c = p then 1 else 0) b"

definition ones :: "nat \<Rightarrow> rat list" where
  "ones n = replicate n 1"

definition get_state :: "env \<Rightarrow> rat list list" where
  "get_state s =
    (let state = replicate 7 (replicate BOARD_POSITIONS (0::rat));
         state = state[0 := indicator (board s) (current_player s)];
         state = state[1 := indicator (board s) (- current_player s)];
         phase = player_phase s (current_player s);
         state = (if phase = Placement then state[2 := ones BOARD_POSITIONS]
                  else if phase = Movement then state[3 := ones BOARD_POSITIONS]
                  else state[4 := ones BOARD_POSITIONS]);
         state = state[5 := map (\<lambda>x. x * (of_int (pieces_in_hand s (current_player s))
                                            / of_int PIECES_PER_PLAYER))
                                (ones BOARD_POSITIONS)];
         state = state[6 := indicator (board s) 0]
     in state)"

subsection \<open>Mills and captures\<close>

text \<open>\<open>pos in mill\<close>: the position is a Python object, \<open>None\<close> is in no mill.\<close>

definition pos_in :: "int option \<Rightarrow> nat list \<Rightarrow> bool" where
  "pos_in pos mill = (case pos of None \<Rightarrow> False | Some i \<Rightarrow> i \<in> set (map int mill))"

text \<open>\<open>_is_in_mill\<close>: the loop over \<open>MILLS\<close>, returning at the first complete mill through
  \<open>pos\<close>.\<close>

fun is_in_mill_loop :: "int list \<Rightarrow> int option \<Rightarrow> int \<Rightarrow> nat list list \<Rightarrow> bool" where
  "is_in_mill_loop b pos player [] = False"
| "is_in_mill_loop b pos player (mill # rest) =
     (if pos_in pos mill then
        (if list_all (\<lambda>p. b ! p = player) mill then True
         else is_in_mill_loop b pos player rest)
      else is_in_mill_loop b pos player rest)"

definition is_in_mill :: "env \<Rightarrow> int option \<Rightarrow> int \<Rightarrow> bool" where
  "is_in_mill s pos player = is_in_mill_loop (board s) pos player MILLS"

text \<open>\<open>_all_in_mills\<close>: the loop over the positions, returning \<open>False\<close> at the first piece
  of \<open>player\<close> outside every complete mill.\<close>

fun all_in_mills_loop :: "env \<Rightarrow> int \<Rightarrow> nat list \<Rightarrow> bool" where
  "all_in_mills_loop s player [] = True"
| "all_in_mills_loop s player (pos # rest) =
     (if board s ! pos = player then
        (if \<not> is_in_mill s (Some (int pos)) player then False
         else all_in_mills_loop s player rest)
      else all_in_mills_loop s player rest)"

definition all_in_mills :: "env \<Rightarrow> int \<Rightarrow> bool" where
  "all_in_mills s player = all_in_mills_loop s player [0..<BOARD_POSITIONS]"

definition get_valid_capture_actions :: "env \<Rightarrow> action list" where
  "get_valid_capture_actions s =
    (let opponent = - current_player s
     in [(''capture'', Some (int pos), None).
           pos \<leftarrow> [0..<BOARD_POSITIONS],
           board s ! pos = opponent,
           \<not> is_in_mill s (Some (int pos)) opponent \<or> all_in_mills s opponent])"

subsection \<open>Legal actions\<close>

definition get_valid_actions :: "env \<Rightarrow> action list" where
  "get_valid_actions s =
    (let phase = player_phase s (current_player s)
     in if phase = Placement then
          (if pieces_in_hand s (current_player s) > 0 then
             [(''place'', None, Some (int pos)).
                pos \<leftarrow> [0..<BOARD_POSITIONS], board s ! pos = 0]
           else [])
        else if phase = Movement then
          [(''move'', Some (int from_pos), Some (int to_pos)).
             from_pos \<leftarrow> [0..<BOARD_POSITIONS], board s ! from_pos = current_player s,
             to_pos \<leftarrow> ADJACENCY ! from_pos, board s ! to_pos = 0]
        else
          [(''move'', Some (int from_pos), Some (int to_pos)).
             from_pos \<leftarrow> [0..<BOARD_POSITIONS], board s ! from_pos = current_player s,
             to_pos \<leftarrow> [0..<BOARD_POSITIONS], board s ! to_pos = 0])"

subsection \<open>The action encoding\<close>

text \<open>\<open>action_to_index\<close>: arithmetic on \<open>None\<close> raises \<open>TypeError\<close>, an unknown action type
  raises \<open>ValueError\<close>.\<close>

definition action_to_index :: "action \<Rightarrow> error + int" where
  "action_to_index action =
    (case action of (action_type, from_pos, to_pos) \<Rightarrow>
       if action_type = ''place'' then
         (case to_pos of None \<Rightarrow> Inl TypeError
          | Some t \<Rightarrow> Inr (ACTION_PLACEMENT_START + t))
       else if action_type = ''move'' then
         (case from_pos of None \<Rightarrow> Inl TypeError
          | Some f \<Rightarrow>
              (case to_pos of None \<Rightarrow> Inl TypeError
               | Some t \<Rightarrow> Inr (ACTION_MOVEMENT_START + f * int BOARD_POSITIONS + t)))
       else if action_type = ''capture'' then
         (case from_pos of None \<Rightarrow> Inl TypeError
          | Some f \<Rightarrow> Inr (ACTION_CAPTURE_START + f))
       else Inl ValueError)"

text \<open>\<open>index_to_action\<close>: \<open>//\<close> and \<open>%\<close> are floor division and its remainder, as \<open>div\<close> and
  \<open>mod\<close> on \<open>int\<close>.\<close>

definition index_to_action :: "int \<Rightarrow> action" where
  "index_to_action index =
    (if index < ACTION_MOVEMENT_START then
       (let pos = index - ACTION_PLACEMENT_START in (''place'', None, Some pos))
     else if index < ACTION_CAPTURE_START then
       (let offset = index - ACTION_MOVEMENT_START;
            from_pos = offset div int BOARD_POSITIONS;
            to_pos = offset mod int BOARD_POSITIONS
        in (''move'', Some from_pos, Some to_pos))
     else
       (let pos = index - ACTION_CAPTURE_START in (''capture'', Some pos, None)))"

subsection \<open>The step\<close>

text \<open>\<open>self.board[pos] = v\<close> on the numpy array: an index in \<open>0..23\<close> writes that cell, an
  index in \<open>-24..-1\<close> counts from the end, any other integer raises \<open>IndexError\<close>, and the
  index \<open>None\<close> (numpy's new axis) assigns the value to every cell.\<close>

definition setitem :: "int list \<Rightarrow> int option \<Rightarrow> int \<Rightarrow> error + int list" where
  "setitem b pos v =
    (case pos of
       None \<Rightarrow> Inr (map (\<lambda>_. v) b)
     | Some i \<Rightarrow>
         if 0 \<le> i \<and> i < int (length b) then Inr (b[nat i := v])
         else if - int (length b) \<le> i \<and> i < 0 then Inr (b[nat (i + int (length b)) := v])
         else Inl IndexError)"

record step_result =
  state :: "rat list list"
  reward :: rat
  is_done :: bool
  info :: "string \<rightharpoonup> bool"

text \<open>The placement-to-movement transition and the per-player flying check.\<close>

definition phase_transition :: "env \<Rightarrow> env" where
  "phase_transition s =
    (if global_phase s = Placement then
       (if pieces_in_hand s 1 = 0 \<and> pieces_in_hand s (-1) = 0 then
          s\<lparr> global_phase := Movement,
             player_phase := (player_phase s)(1 := Movement, -1 := Movement) \<rparr>
        else s)
     else s)"

definition flying_check :: "env \<Rightarrow> env" where
  "flying_check s =
    (if global_phase s = Movement then
       foldl (\<lambda>s p. if pieces_on_board s p = 3
                     then s\<lparr> player_phase := (player_phase s)(p := Flying) \<rparr> else s)
             s [1, -1]
     else s)"

text \<open>The blockade test: the two nested loops of the movement branch, each left at the
  first empty neighbour.\<close>

fun adjacent_empty :: "int list \<Rightarrow> nat list \<Rightarrow> bool" where
  "adjacent_empty b [] = False"
| "adjacent_empty b (to_pos # rest) = (if b ! to_pos = 0 then True else adjacent_empty b rest)"

fun movement_scan :: "int list \<Rightarrow> int \<Rightarrow> nat list \<Rightarrow> bool" where
  "movement_scan b next_player [] = False"
| "movement_scan b next_player (from_pos # rest) =
     (if b ! from_pos = next_player then
        (if adjacent_empty b (ADJACENCY ! from_pos) then True
         else movement_scan b next_player rest)
      else movement_scan b next_player rest)"

definition any_empty :: "int list \<Rightarrow> bool" where
  "any_empty b = list_ex (\<lambda>c. c = 0) b"

definition has_move :: "env \<Rightarrow> bool" where
  "has_move s =
    (let next_player = current_player s;
         phase = player_phase s next_player
     in if phase = Placement then any_empty (board s) \<and> pieces_in_hand s next_player > 0
        else if phase = Movement then movement_scan (board s) next_player [0..<BOARD_POSITIONS]
        else any_empty (board s))"

text \<open>The terminal conditions, in the order of the source: elimination, blockade (only if
  not yet done), then the move limit, which is tested on every path.\<close>

definition terminal_check :: "env \<Rightarrow> int \<Rightarrow> rat \<Rightarrow> env \<times> rat \<times> bool" where
  "terminal_check s acting_player reward0 =
    (let (s1, reward1, done1) =
           (if global_phase s \<noteq> Placement \<and> pieces_on_board s (- acting_player) < 3
            then (s\<lparr> winner := Some acting_player \<rparr>, 3/2, True)
            else (s, reward0, False));
         (s2, reward2, done2) =
           (if \<not> done1 then
              (if \<not> has_move s1 then (s1\<lparr> winner := Some acting_player \<rparr>, 3/2, True)
               else (s1, reward1, done1))
            else (s1, reward1, done1));
         (s3, reward3, done3) =
           (if move_count s2 > 200 then (s2\<lparr> winner := Some 0 \<rparr>, 0, True)
            else (s2, reward2, done2))
     in (s3, reward3, done3))"

text \<open>The part of \<open>step\<close> after the action's own branch: phases, terminal conditions, the
  returned tuple.\<close>

definition finish :: "env \<Rightarrow> int \<Rightarrow> rat \<Rightarrow> env \<times> step_result" where
  "finish s acting_player reward0 =
    (let s = flying_check (phase_transition s);
         (s, r, d) = terminal_check s acting_player reward0
     in (s, \<lparr> state = get_state s, reward = r, is_done = d,
              info = [''formed_mill'' \<mapsto> last_mill_formed s, ''capture'' \<mapsto> last_capture s] \<rparr>))"

text \<open>The return inside the place and move branches, taken when a mill was formed and a
  capture is possible: no phase update, no terminal check, the player does not change.\<close>

definition capture_owed_result :: "env \<Rightarrow> rat \<Rightarrow> env \<times> step_result" where
  "capture_owed_result s r =
    (s, \<lparr> state = get_state s, reward = r, is_done = False,
          info = [''needs_capture'' \<mapsto> True, ''formed_mill'' \<mapsto> True] \<rparr>)"

text \<open>What place and move share after the board is written: the mill check, the early
  return, the change of player.\<close>

definition after_placing :: "env \<Rightarrow> int option \<Rightarrow> int \<Rightarrow> rat \<Rightarrow> env \<times> step_result" where
  "after_placing s to_pos acting_player reward0 =
    (if is_in_mill s to_pos (current_player s) then
       (let s = s\<lparr> last_mill_formed := True \<rparr>;
            reward1 = reward0 + 1/10
        in if length (get_valid_capture_actions s) > 0 then capture_owed_result s reward1
           else finish (s\<lparr> current_player := - current_player s \<rparr>) acting_player reward1)
     else finish (s\<lparr> current_player := - current_player s \<rparr>) acting_player reward0)"

definition step :: "env \<Rightarrow> action \<Rightarrow> error + env \<times> step_result" where
  "step s0 action =
    (case action of (action_type, from_pos, to_pos) \<Rightarrow>
      (let acting_player = current_player s0;
           s = s0\<lparr> last_mill_formed := False, last_capture := False \<rparr>;
           reward0 = - 35/10000
       in if action_type = ''capture'' then
            (case setitem (board s) from_pos 0 of
               Inl e \<Rightarrow> Inl e
             | Inr b \<Rightarrow>
                 Inr (finish
                   (s\<lparr> board := b,
                       pieces_on_board := (pieces_on_board s)
                         (- current_player s := pieces_on_board s (- current_player s) - 1),
                       current_player := - current_player s,
                       move_count := move_count s + 1,
                       last_capture := True \<rparr>)
                   acting_player (reward0 + 5/100)))
          else if action_type = ''place'' then
            (case setitem (board s) to_pos (current_player s) of
               Inl e \<Rightarrow> Inl e
             | Inr b \<Rightarrow>
                 Inr (after_placing
                   (s\<lparr> board := b,
                       pieces_in_hand := (pieces_in_hand s)
                         (current_player s := pieces_in_hand s (current_player s) - 1),
                       pieces_on_board := (pieces_on_board s)
                         (current_player s := pieces_on_board s (current_player s) + 1),
                       move_count := move_count s + 1 \<rparr>)
                   to_pos acting_player reward0))
          else if action_type = ''move'' then
            (case setitem (board s) from_pos 0 of
               Inl e \<Rightarrow> Inl e
             | Inr b0 \<Rightarrow>
                 (case setitem b0 to_pos (current_player s) of
                    Inl e \<Rightarrow> Inl e
                  | Inr b \<Rightarrow>
                      Inr (after_placing
                        (s\<lparr> board := b, move_count := move_count s + 1 \<rparr>)
                        to_pos acting_player reward0)))
          else Inr (finish s acting_player reward0)))"


subsection \<open>The driver\<close>

text \<open>
  \<open>execute_turn\<close> of \<open>app.py\<close> with \<open>get_ai_move\<close> and \<open>get_ai_capture\<close> of \<open>model.py\<close>:
  the driver calls \<open>step\<close> with an action of \<open>get_valid_actions\<close>, and, when the returned
  info holds \<open>needs_capture\<close>, calls it again with an action of
  \<open>get_valid_capture_actions\<close>; once a step returns \<open>done\<close> it calls \<open>step\<close> no more. A
  session is the environment with what the driver remembers between two calls. The field
  \<open>captured\<close> is a history variable the source does not keep: how many pieces of each
  player have been captured so far.
\<close>

record session =
  env_of :: env
  capture_pending :: bool
  game_over :: bool
  captured :: "int \<Rightarrow> int"

definition new_session :: session where
  "new_session =
     \<lparr> env_of = reset, capture_pending = False, game_over = False, captured = (\<lambda>_. 0) \<rparr>"

definition enumerated :: "session \<Rightarrow> action list" where
  "enumerated g =
     (if capture_pending g then get_valid_capture_actions (env_of g)
      else get_valid_actions (env_of g))"

definition drive :: "session \<Rightarrow> action \<Rightarrow> session option" where
  "drive g a =
     (if game_over g \<or> a \<notin> set (enumerated g) then None
      else case step (env_of g) a of
             Inl e \<Rightarrow> None
           | Inr (s', r) \<Rightarrow>
               Some \<lparr> env_of = s',
                      capture_pending = (info r ''needs_capture'' = Some True),
                      game_over = is_done r,
                      captured =
                        (if fst a = ''capture''
                         then (captured g)(- current_player (env_of g) :=
                                captured g (- current_player (env_of g)) + 1)
                         else captured g) \<rparr>)"

fun play :: "session \<Rightarrow> action list \<Rightarrow> session option" where
  "play g [] = Some g"
| "play g (a # as) = (case drive g a of None \<Rightarrow> None | Some g' \<Rightarrow> play g' as)"

text \<open>Any sequence of calls of \<open>step\<close>, legal or not, stopping at the first exception.\<close>

fun run :: "env \<Rightarrow> action list \<Rightarrow> error + env" where
  "run s [] = Inr s"
| "run s (a # as) = (case step s a of Inl e \<Rightarrow> Inl e | Inr (s', r) \<Rightarrow> run s' as)"

subsection \<open>Notions the statements use\<close>

text \<open>A position lies in a complete mill of \<open>player\<close> on the board \<open>b\<close>.\<close>

definition in_complete_mill :: "int list \<Rightarrow> int \<Rightarrow> nat \<Rightarrow> bool" where
  "in_complete_mill b player pos \<longleftrightarrow>
     (\<exists>mill \<in> set MILLS. pos \<in> set mill \<and> (\<forall>p \<in> set mill. b ! p = player))"

text \<open>The elimination test of \<open>step\<close>, read on the state at the end of the step.\<close>

definition eliminated :: "env \<Rightarrow> int \<Rightarrow> bool" where
  "eliminated s acting_player \<longleftrightarrow>
     global_phase s \<noteq> Placement \<and> pieces_on_board s (- acting_player) < 3"

text \<open>The test of the early return in the place and move branches.\<close>

definition capture_owed :: "env \<Rightarrow> int option \<Rightarrow> bool" where
  "capture_owed s to_pos \<longleftrightarrow>
     is_in_mill s to_pos (current_player s) \<and> get_valid_capture_actions s \<noteq> []"

text \<open>What holds of the phases in every state a sequence of steps reaches from \<open>reset\<close>:
  the global phase is placement or movement, and a player flies only in the movement phase.\<close>

definition phases_consistent :: "env \<Rightarrow> bool" where
  "phases_consistent s \<longleftrightarrow>
     (global_phase s = Placement \<or> global_phase s = Movement)
     \<and> (\<forall>p. player_phase s p = Flying \<longrightarrow> global_phase s = Movement)"

text \<open>The number of cells of a board that hold \<open>p\<close>, and the pieces of player \<open>p\<close> that
  really stand on the board of a state (the attribute \<open>pieces_on_board\<close> is the source's own
  counter). \<open>balanced\<close> is piece conservation for one player; \<open>placed_one\<close>, \<open>moved_one\<close> and
  \<open>captured_one\<close> say what one call of the driver changes for the acting player \<open>me\<close> and for
  the opponent.\<close>

definition pieces_of :: "int list \<Rightarrow> int \<Rightarrow> int" where
  "pieces_of b p = int (count_list b p)"

definition on_board :: "env \<Rightarrow> int \<Rightarrow> int" where
  "on_board s p = pieces_of (board s) p"

definition balanced :: "session \<Rightarrow> int \<Rightarrow> bool" where
  "balanced g p \<longleftrightarrow>
     pieces_in_hand (env_of g) p + pieces_on_board (env_of g) p + captured g p = 9
     \<and> pieces_on_board (env_of g) p = on_board (env_of g) p
     \<and> 0 \<le> pieces_in_hand (env_of g) p \<and> 0 \<le> captured g p"

definition unchanged_for :: "session \<Rightarrow> session \<Rightarrow> int \<Rightarrow> bool" where
  "unchanged_for g g' p \<longleftrightarrow>
     pieces_in_hand (env_of g') p = pieces_in_hand (env_of g) p
     \<and> pieces_on_board (env_of g') p = pieces_on_board (env_of g) p
     \<and> on_board (env_of g') p = on_board (env_of g) p
     \<and> captured g' p = captured g p"

definition placed_one :: "session \<Rightarrow> session \<Rightarrow> bool" where
  "placed_one g g' \<longleftrightarrow>
     (let e = env_of g; e' = env_of g'; me = current_player e
      in 0 < pieces_in_hand e me
         \<and> pieces_in_hand e' me = pieces_in_hand e me - 1
         \<and> pieces_on_board e' me = pieces_on_board e me + 1
         \<and> on_board e' me = on_board e me + 1
         \<and> captured g' me = captured g me
         \<and> unchanged_for g g' (- me))"

definition moved_one :: "session \<Rightarrow> session \<Rightarrow> bool" where
  "moved_one g g' \<longleftrightarrow>
     (let me = current_player (env_of g)
      in unchanged_for g g' me \<and> unchanged_for g g' (- me))"

definition captured_one :: "session \<Rightarrow> session \<Rightarrow> bool" where
  "captured_one g g' \<longleftrightarrow>
     (let e = env_of g; e' = env_of g'; me = current_player e
      in pieces_in_hand e' (- me) = pieces_in_hand e (- me)
         \<and> pieces_on_board e' (- me) = pieces_on_board e (- me) - 1
         \<and> on_board e' (- me) = on_board e (- me) - 1
         \<and> captured g' (- me) = captured g (- me) + 1
         \<and> unchanged_for g g' me)"

subsection \<open>Example positions\<close>

text \<open>An endgame after 199 actions: player 1 on 0, 1, 14, player -1 on 5, 8, 17, both
  flying, player 1 to move. Moving 14 to 2 closes the mill 0-1-2.\<close>

definition endgame_board :: "int list" where
  "endgame_board = [1,1,0, 0,0,-1, 0,0,-1, 0,0,0, 0,0,1, 0,0,-1, 0,0,0, 0,0,0]"

definition endgame :: env where
  "endgame =
     \<lparr> board = endgame_board,
       global_phase = Movement,
       player_phase = (\<lambda>_. Flying),
       current_player = 1,
       pieces_in_hand = (\<lambda>_. 0),
       pieces_on_board = (\<lambda>_. 3),
       winner = None,
       move_count = 199,
       last_mill_formed = False,
       last_capture = False \<rparr>"

text \<open>Two openings that end with player 1 closing the mill 0-1-2 and owing a capture. In
  the first, player -1 holds the mill 3-4-5 and a piece on 6; in the second, only the mill.\<close>

definition opening_protected :: "action list" where
  "opening_protected =
     [(''place'', None, Some 0), (''place'', None, Some 3),
      (''place'', None, Some 1), (''place'', None, Some 4),
      (''place'', None, Some 10), (''place'', None, Some 5), (''capture'', Some 10, None),
      (''place'', None, Some 12), (''place'', None, Some 6),
      (''place'', None, Some 2)]"

definition opening_waived :: "action list" where
  "opening_waived =
     [(''place'', None, Some 0), (''place'', None, Some 3),
      (''place'', None, Some 1), (''place'', None, Some 4),
      (''place'', None, Some 10), (''place'', None, Some 5), (''capture'', Some 10, None),
      (''place'', None, Some 2)]"

text \<open>The same endgame with a fourth piece of player -1 on 20, who is still in the movement
  phase.\<close>

definition endgame4 :: env where
  "endgame4 =
     endgame \<lparr> board := [1,1,0, 0,0,-1, 0,0,-1, 0,0,0, 0,0,1, 0,0,-1, 0,0,-1, 0,0,0],
               player_phase := (\<lambda>_. Movement)(1 := Flying),
               pieces_on_board := (\<lambda>_. 3)(-1 := 4) \<rparr>"

text \<open>An opening after which player 1 holds 0 and 1, player -1 holds 3 and 4, and player 1
  is to place; and the position with player 1 on 0 and 1 and nothing else on the board.\<close>

definition opening_pair :: "action list" where
  "opening_pair =
     [(''place'', None, Some 0), (''place'', None, Some 3),
      (''place'', None, Some 1), (''place'', None, Some 4)]"

definition lone_pair :: env where
  "lone_pair =
     reset \<lparr> board := [1,1,0, 0,0,0, 0,0,0, 0,0,0, 0,0,0, 0,0,0, 0,0,0, 0,0,0],
             pieces_in_hand := (\<lambda>_. 9)(1 := 7),
             pieces_on_board := (\<lambda>_. 0)(1 := 2),
             move_count := 2 \<rparr>"

text \<open>A position after 200 actions in which player 1, by moving 19 to 22, leaves no piece of
  player -1 (on the corners 0, 2, 21, 23) with an empty neighbour.\<close>

definition blockade_example :: env where
  "blockade_example =
     \<lparr> board = [-1,1,-1, 0,0,0, 0,0,0, 1,0,0, 0,0,1, 0,0,0, 0,1,0, -1,0,-1],
       global_phase = Movement,
       player_phase = (\<lambda>_. Movement),
       current_player = 1,
       pieces_in_hand = (\<lambda>_. 0),
       pieces_on_board = (\<lambda>_. 4),
       winner = None,
       move_count = 200,
       last_mill_formed = False,
       last_capture = False \<rparr>"

text \<open>Sessions of the driver that stand at these positions.\<close>

definition session_at :: "env \<Rightarrow> session" where
  "session_at s =
     \<lparr> env_of = s, capture_pending = False, game_over = False,
       captured = (\<lambda>p. 9 - pieces_in_hand s p - pieces_on_board s p) \<rparr>"





text \<open>A full placement phase without a mill until the last piece: the eighteenth placement,
  by player -1 on 2, closes the mill 0-1-2. The plays of its first seventeen actions, of all
  eighteen, and of the eighteen followed by the capture on 3.\<close>

definition closing_opening :: "action list" where
  "closing_opening =
     [(''place'', None, Some 3), (''place'', None, Some 0),
      (''place'', None, Some 4), (''place'', None, Some 1),
      (''place'', None, Some 6), (''place'', None, Some 5),
      (''place'', None, Some 7), (''place'', None, Some 8),
      (''place'', None, Some 9), (''place'', None, Some 11),
      (''place'', None, Some 10), (''place'', None, Some 14),
      (''place'', None, Some 12), (''place'', None, Some 16),
      (''place'', None, Some 13), (''place'', None, Some 18),
      (''place'', None, Some 15), (''place'', None, Some 2)]"

definition closing_before :: env where
  "closing_before = env_of (the (play new_session (butlast closing_opening)))"

definition closing_after :: env where
  "closing_after = env_of (the (play new_session closing_opening))"

definition closing_captured :: env where
  "closing_captured =
     env_of (the (play new_session (closing_opening @ [(''capture'', Some 3, None)])))"

text \<open>A whole game of 200 actions, each one taken from the enumeration of the state it is
  played in. Eighteen placements without a mill leave player 1 on 3, 4, 6, 7, 9, 10, 12,
  13, 15 and player -1 on 0, 1, 5, 8, 14, 16, 18, 19, 21. Then 37 times both players move a
  piece to and fro (player 1 between 12 and 17, player -1 between 19 and 20). Then player
  -1 closes the mill 0-1-2 with the piece on 14, captures, and opens it again, six times,
  which leaves player 1 with three pieces; the last action closes the mill a seventh time.\<close>

definition long_opening :: "action list" where
  "long_opening =
     [(''place'', None, Some 3), (''place'', None, Some 0),
      (''place'', None, Some 4), (''place'', None, Some 1),
      (''place'', None, Some 6), (''place'', None, Some 5),
      (''place'', None, Some 7), (''place'', None, Some 8),
      (''place'', None, Some 9), (''place'', None, Some 14),
      (''place'', None, Some 10), (''place'', None, Some 16),
      (''place'', None, Some 12), (''place'', None, Some 18),
      (''place'', None, Some 13), (''place'', None, Some 19),
      (''place'', None, Some 15), (''place'', None, Some 21)]"

definition idle_cycle :: "action list" where
  "idle_cycle =
     [(''move'', Some 12, Some 17), (''move'', Some 19, Some 20),
      (''move'', Some 17, Some 12), (''move'', Some 20, Some 19)]"

definition capture_cycle :: "int \<Rightarrow> action list" where
  "capture_cycle target =
     [(''move'', Some 17, Some 12), (''move'', Some 14, Some 2),
      (''capture'', Some target, None),
      (''move'', Some 12, Some 17), (''move'', Some 2, Some 14)]"

definition long_game :: "action list" where
  "long_game =
     long_opening @ concat (replicate 37 idle_cycle)
     @ [(''move'', Some 12, Some 17), (''move'', Some 19, Some 20)]
     @ concat (map capture_cycle [3, 4, 6, 7, 9, 10])
     @ [(''move'', Some 17, Some 12), (''move'', Some 14, Some 2)]"

section \<open>Properties of the engine\<close>

subsection \<open>The encoding is exact on the enumerated actions\<close>

lemma ADJACENCY_bound:
  "from_pos < 24 \<Longrightarrow> to_pos \<in> set (ADJACENCY ! from_pos) \<Longrightarrow> to_pos < 24"
proof -
  have "\<forall>from_pos < 24. \<forall>to_pos \<in> set (ADJACENCY ! from_pos). to_pos < 24"
    unfolding ADJACENCY_def by (simp add: All_less_Suc2 numeral_eq_Suc)
  then show "from_pos < 24 \<Longrightarrow> to_pos \<in> set (ADJACENCY ! from_pos) \<Longrightarrow> to_pos < 24"
    by blast
qed

lemma valid_actions_shape:
  assumes "a \<in> set (get_valid_actions s)"
  shows "(\<exists>pos<24. a = (''place'', None, Some (int pos)) \<and> board s ! pos = 0)
       \<or> (\<exists>f<24. \<exists>t<24. a = (''move'', Some (int f), Some (int t))
             \<and> board s ! f = current_player s \<and> board s ! t = 0)"
  using assms
  by (auto simp: get_valid_actions_def BOARD_POSITIONS_def Let_def
      split: if_splits dest: ADJACENCY_bound)

lemma valid_captures_shape:
  assumes "a \<in> set (get_valid_capture_actions s)"
  shows "\<exists>pos<24. a = (''capture'', Some (int pos), None) \<and> board s ! pos = - current_player s"
  using assms
  by (auto simp: get_valid_capture_actions_def BOARD_POSITIONS_def Let_def split: if_splits)

lemma place_roundtrip:
  "pos < 24 \<Longrightarrow> action_to_index (''place'', None, Some (int pos)) = Inr (int pos)
     \<and> index_to_action (int pos) = (''place'', None, Some (int pos))"
  by (simp add: action_to_index_def index_to_action_def ACTION_PLACEMENT_START_def
      ACTION_MOVEMENT_START_def)

lemma move_roundtrip:
  "f < 24 \<Longrightarrow> t < 24 \<Longrightarrow>
     action_to_index (''move'', Some (int f), Some (int t)) = Inr (24 + int f * 24 + int t)
     \<and> index_to_action (24 + int f * 24 + int t) = (''move'', Some (int f), Some (int t))"
  by (simp add: action_to_index_def index_to_action_def ACTION_PLACEMENT_START_def
      ACTION_MOVEMENT_START_def ACTION_CAPTURE_START_def BOARD_POSITIONS_def Let_def)

lemma capture_roundtrip:
  "action_to_index (''capture'', Some (int pos), None) = Inr (600 + int pos)
     \<and> index_to_action (600 + int pos) = (''capture'', Some (int pos), None)"
  by (simp add: action_to_index_def index_to_action_def ACTION_PLACEMENT_START_def
      ACTION_MOVEMENT_START_def ACTION_CAPTURE_START_def BOARD_POSITIONS_def Let_def)

text \<open>
  \<^bold>\<open>C4.\<close> Every action of the enumerated legal sets of any state (a place or move of
  \<open>get_valid_actions\<close>, a capture of \<open>get_valid_capture_actions\<close>) is encoded without an
  error, to an index in \<open>[0, 624)\<close> from which \<open>index_to_action\<close> gives the action back;
  place-at-\<open>i\<close> has the index \<open>i\<close> in \<open>[0, 24)\<close>, move-from-\<open>A\<close>-to-\<open>B\<close> the index
  \<open>24 + A * 24 + B\<close> in \<open>[24, 600)\<close>, capture-at-\<open>i\<close> the index \<open>600 + i\<close> in \<open>[600, 624)\<close>.
  No reachability is needed: it holds for the enumerations of every state.
\<close>

theorem encoding_roundtrip:
  assumes "a \<in> set (get_valid_actions s) \<union> set (get_valid_capture_actions s)"
  shows "\<exists>i. action_to_index a = Inr i \<and> index_to_action i = a
            \<and> 0 \<le> i \<and> i < ACTION_SPACE_SIZE
            \<and> (fst a = ''place'' \<or> fst a = ''move'' \<or> fst a = ''capture'')
            \<and> (fst a = ''place'' \<longrightarrow> 0 \<le> i \<and> i < 24 \<and> a = (''place'', None, Some i))
            \<and> (fst a = ''move'' \<longrightarrow> 24 \<le> i \<and> i < 600
                  \<and> (\<exists>A B. a = (''move'', Some A, Some B) \<and> i = 24 + A * 24 + B))
            \<and> (fst a = ''capture'' \<longrightarrow> 600 \<le> i \<and> i < 624
                  \<and> a = (''capture'', Some (i - 600), None))"
proof -
  from assms consider
      (place) pos where "pos < 24" "a = (''place'', None, Some (int pos))"
    | (move) f t where "f < 24" "t < 24" "a = (''move'', Some (int f), Some (int t))"
    | (capture) pos where "pos < 24" "a = (''capture'', Some (int pos), None)"
    using valid_actions_shape [of a s] valid_captures_shape [of a s] by auto
  then show ?thesis
  proof cases
    case place
    then show ?thesis
      using place_roundtrip [of pos] by (simp add: ACTION_SPACE_SIZE_def)
  next
    case move
    have "int f * 24 + int t < 576" using move(1,2) by simp
    then show ?thesis
      using move move_roundtrip [of f t] by (simp add: ACTION_SPACE_SIZE_def)
  next
    case capture
    then show ?thesis
      using capture_roundtrip [of pos] by (simp add: ACTION_SPACE_SIZE_def)
  qed
qed

theorem encoding_roundtrip_witness:
  "(''place'', None, Some 4) \<in> set (get_valid_actions reset) \<union> set (get_valid_capture_actions reset)
   \<and> action_to_index (''place'', None, Some 4) = Inr 4
   \<and> index_to_action 4 = (''place'', None, Some 4)"
proof -
  have m: "(''place'', None, Some 4)
             \<in> set (get_valid_actions reset) \<union> set (get_valid_capture_actions reset)"
    by code_simp
  from encoding_roundtrip [OF m] m show ?thesis by auto
qed

subsection \<open>The loops over mills and positions\<close>

lemma is_in_mill_loop_iff:
  "is_in_mill_loop b pos player ms \<longleftrightarrow>
     (\<exists>mill \<in> set ms. pos_in pos mill \<and> (\<forall>p \<in> set mill. b ! p = player))"
  by (induction ms) (auto simp: list_all_iff)

lemma is_in_mill_iff:
  "is_in_mill s (Some (int pos)) player \<longleftrightarrow>
     (\<exists>mill \<in> set MILLS. pos \<in> set mill \<and> (\<forall>p \<in> set mill. board s ! p = player))"
  by (auto simp: is_in_mill_def is_in_mill_loop_iff pos_in_def)

lemma all_in_mills_loop_iff:
  "all_in_mills_loop s player ps \<longleftrightarrow>
     (\<forall>pos \<in> set ps. board s ! pos = player \<longrightarrow> is_in_mill s (Some (int pos)) player)"
  by (induction ps) auto

lemma all_in_mills_iff:
  "all_in_mills s player \<longleftrightarrow>
     (\<forall>pos < 24. board s ! pos = player \<longrightarrow> is_in_mill s (Some (int pos)) player)"
  by (auto simp: all_in_mills_def all_in_mills_loop_iff BOARD_POSITIONS_def)

lemma set_get_valid_capture_actions:
  "set (get_valid_capture_actions s) =
     (\<lambda>pos. (''capture'', Some (int pos), None)) `
       {pos. pos < 24 \<and> board s ! pos = - current_player s
             \<and> (\<not> is_in_mill s (Some (int pos)) (- current_player s)
                 \<or> all_in_mills s (- current_player s))}"
  by (auto simp: get_valid_capture_actions_def BOARD_POSITIONS_def Let_def)

subsection \<open>What a step changes\<close>

lemma phase_transition_frame [simp]:
  "board (phase_transition s) = board s"
  "current_player (phase_transition s) = current_player s"
  "pieces_in_hand (phase_transition s) = pieces_in_hand s"
  "pieces_on_board (phase_transition s) = pieces_on_board s"
  "move_count (phase_transition s) = move_count s"
  "winner (phase_transition s) = winner s"
  "last_mill_formed (phase_transition s) = last_mill_formed s"
  "last_capture (phase_transition s) = last_capture s"
  by (simp_all add: phase_transition_def)

lemma flying_check_frame [simp]:
  "board (flying_check s) = board s"
  "current_player (flying_check s) = current_player s"
  "pieces_in_hand (flying_check s) = pieces_in_hand s"
  "pieces_on_board (flying_check s) = pieces_on_board s"
  "move_count (flying_check s) = move_count s"
  "winner (flying_check s) = winner s"
  "global_phase (flying_check s) = global_phase s"
  "last_mill_formed (flying_check s) = last_mill_formed s"
  "last_capture (flying_check s) = last_capture s"
  by (simp_all add: flying_check_def)

lemma has_move_winner [simp]: "has_move (s\<lparr> winner := w \<rparr>) = has_move s"
  by (simp add: has_move_def)

lemma finish_env:
  "fst (finish s a r0) =
     (let s1 = flying_check (phase_transition s)
      in s1\<lparr> winner :=
            (if move_count s1 > 200 then Some 0
             else if eliminated s1 a \<or> \<not> has_move s1 then Some a
             else winner s1) \<rparr>)"
  by (simp add: finish_def terminal_check_def eliminated_def Let_def split: prod.splits)

lemma finish_done:
  "is_done (snd (finish s a r0)) \<longleftrightarrow>
     (let s1 = flying_check (phase_transition s)
      in move_count s1 > 200 \<or> eliminated s1 a \<or> \<not> has_move s1)"
  by (auto simp add: finish_def terminal_check_def eliminated_def Let_def split: prod.splits)

lemma finish_info:
  "info (snd (finish s a r0)) =
     [''formed_mill'' \<mapsto> last_mill_formed s, ''capture'' \<mapsto> last_capture s]"
  by (simp add: finish_def terminal_check_def Let_def split: prod.splits)


lemma is_in_mill_cong:
  "board s = board s' \<Longrightarrow> is_in_mill s pos p = is_in_mill s' pos p"
  by (simp add: is_in_mill_def)

lemma all_in_mills_loop_cong:
  "board s = board s' \<Longrightarrow> all_in_mills_loop s p ps = all_in_mills_loop s' p ps"
  by (induction ps) (auto simp: is_in_mill_def)

lemma get_valid_capture_actions_cong:
  assumes "board s = board s'" "current_player s = current_player s'"
  shows "get_valid_capture_actions s = get_valid_capture_actions s'"
proof -
  have a: "\<And>pos p. is_in_mill s pos p = is_in_mill s' pos p"
    using assms(1) by (rule is_in_mill_cong)
  have b: "\<And>p. all_in_mills s p = all_in_mills s' p"
    using all_in_mills_loop_cong [OF assms(1)] by (simp add: all_in_mills_def)
  show ?thesis
    unfolding get_valid_capture_actions_def a b assms ..
qed

lemma finish_frame [simp]:
  "board (fst (finish s a r0)) = board s"
  "current_player (fst (finish s a r0)) = current_player s"
  "pieces_in_hand (fst (finish s a r0)) = pieces_in_hand s"
  "pieces_on_board (fst (finish s a r0)) = pieces_on_board s"
  "move_count (fst (finish s a r0)) = move_count s"
  "last_mill_formed (fst (finish s a r0)) = last_mill_formed s"
  "last_capture (fst (finish s a r0)) = last_capture s"
  by (simp_all add: finish_env Let_def)

lemma after_placing_cases:
  "after_placing s to_pos a r0 =
     (if capture_owed s to_pos
      then capture_owed_result (s\<lparr> last_mill_formed := True \<rparr>) (r0 + 1/10)
      else if is_in_mill s to_pos (current_player s)
      then finish (s\<lparr> last_mill_formed := True, current_player := - current_player s \<rparr>) a
             (r0 + 1/10)
      else finish (s\<lparr> current_player := - current_player s \<rparr>) a r0)"
proof -
  have "get_valid_capture_actions (s\<lparr> last_mill_formed := True \<rparr>) = get_valid_capture_actions s"
    by (rule get_valid_capture_actions_cong) simp_all
  then show ?thesis
    by (simp add: after_placing_def capture_owed_def Let_def)
qed

lemma after_placing_frame [simp]:
  "board (fst (after_placing s to_pos a r0)) = board s"
  "pieces_in_hand (fst (after_placing s to_pos a r0)) = pieces_in_hand s"
  "pieces_on_board (fst (after_placing s to_pos a r0)) = pieces_on_board s"
  "move_count (fst (after_placing s to_pos a r0)) = move_count s"
  "last_capture (fst (after_placing s to_pos a r0)) = last_capture s"
  by (simp_all add: after_placing_cases capture_owed_result_def)

lemma after_placing_player:
  "current_player (fst (after_placing s to_pos a r0)) =
     (if capture_owed s to_pos then current_player s else - current_player s)"
  by (simp add: after_placing_cases capture_owed_result_def)

lemma after_placing_info:
  "info (snd (after_placing s to_pos a r0)) =
     (if capture_owed s to_pos then [''needs_capture'' \<mapsto> True, ''formed_mill'' \<mapsto> True]
      else [''formed_mill'' \<mapsto> (last_mill_formed s \<or> is_in_mill s to_pos (current_player s)),
            ''capture'' \<mapsto> last_capture s])"
  by (simp add: after_placing_cases capture_owed_result_def finish_info)

lemma after_placing_done:
  "capture_owed s to_pos \<Longrightarrow> \<not> is_done (snd (after_placing s to_pos a r0))"
  by (simp add: after_placing_cases capture_owed_result_def)

lemma step_move_count:
  assumes "step s (ty, f, t) = Inr (s', r)"
  shows "move_count s' =
     (if ty = ''capture'' \<or> ty = ''place'' \<or> ty = ''move'' then move_count s + 1
      else move_count s)"
  using assms
  by (auto simp: step_def Let_def split: if_splits sum.splits
      dest!: arg_cong [where f = "\<lambda>x. move_count (fst x)"])


subsection \<open>Capture targets\<close>

text \<open>
  \<^bold>\<open>C3.\<close> In every state (so in every state where a capture is owed) the legal capture
  targets are exactly the cells owned by the opponent of the current player that lie in no
  complete mill of the opponent, except that when every cell the opponent owns lies in a
  complete mill of the opponent, every cell the opponent owns is a target.
\<close>

theorem capture_targets:
  assumes "well_formed s"
  shows "set (get_valid_capture_actions s) =
     (let opponent = - current_player s;
          owned = {pos. pos < 24 \<and> board s ! pos = opponent};
          protected = {pos \<in> owned. in_complete_mill (board s) opponent pos}
      in (\<lambda>pos. (''capture'', Some (int pos), None)) `
           (if owned \<subseteq> protected then owned else owned - protected))"
proof -
  let ?opp = "- current_player s"
  let ?owned = "{pos. pos < 24 \<and> board s ! pos = ?opp}"
  let ?prot = "{pos \<in> ?owned. in_complete_mill (board s) ?opp pos}"
  have mill: "\<And>pos. is_in_mill s (Some (int pos)) ?opp \<longleftrightarrow> in_complete_mill (board s) ?opp pos"
    by (simp add: is_in_mill_iff in_complete_mill_def)
  have all: "all_in_mills s ?opp \<longleftrightarrow> ?owned \<subseteq> ?prot"
    by (auto simp: all_in_mills_iff mill)
  have "{pos. pos < 24 \<and> board s ! pos = ?opp
             \<and> (\<not> is_in_mill s (Some (int pos)) ?opp \<or> all_in_mills s ?opp)}
        = (if ?owned \<subseteq> ?prot then ?owned else ?owned - ?prot)"
    unfolding all mill by auto
  then show ?thesis
    by (simp add: set_get_valid_capture_actions Let_def)
qed

text \<open>The witness: the two openings, played through the driver. With the mill 3-4-5 and a
  piece on 6, only 6 can be taken; with the mill alone, each of 3, 4, 5 can.\<close>

theorem capture_targets_witness:
  "(\<exists>g. play new_session opening_protected = Some g \<and> capture_pending g
        \<and> well_formed (env_of g)
        \<and> board (env_of g) = [1,1,1, -1,-1,-1, -1,0,0, 0,0,0, 1,0,0, 0,0,0, 0,0,0, 0,0,0]
        \<and> (let opponent = - current_player (env_of g);
                owned = {pos. pos < 24 \<and> board (env_of g) ! pos = opponent};
                protected = {pos \<in> owned. in_complete_mill (board (env_of g)) opponent pos}
            in (\<lambda>pos. ((''capture'', Some (int pos), None) :: action)) `
                 (if owned \<subseteq> protected then owned else owned - protected))
           = {(''capture'', Some 6, None)})
   \<and> (\<exists>g. play new_session opening_waived = Some g \<and> capture_pending g
        \<and> well_formed (env_of g)
        \<and> board (env_of g) = [1,1,1, -1,-1,-1, 0,0,0, 0,0,0, 0,0,0, 0,0,0, 0,0,0, 0,0,0]
        \<and> (let opponent = - current_player (env_of g);
                owned = {pos. pos < 24 \<and> board (env_of g) ! pos = opponent};
                protected = {pos \<in> owned. in_complete_mill (board (env_of g)) opponent pos}
            in (\<lambda>pos. ((''capture'', Some (int pos), None) :: action)) `
                 (if owned \<subseteq> protected then owned else owned - protected))
           = {(''capture'', Some 3, None), (''capture'', Some 4, None),
              (''capture'', Some 5, None)})"
proof -
  have "case play new_session opening_protected of None \<Rightarrow> False
     | Some g \<Rightarrow> capture_pending g \<and> well_formed (env_of g)
         \<and> board (env_of g) = [1,1,1, -1,-1,-1, -1,0,0, 0,0,0, 1,0,0, 0,0,0, 0,0,0, 0,0,0]
         \<and> set (get_valid_capture_actions (env_of g)) = {(''capture'', Some 6, None)}"
    by code_simp
  then obtain g where g: "play new_session opening_protected = Some g" "capture_pending g"
      "well_formed (env_of g)"
      "board (env_of g) = [1,1,1, -1,-1,-1, -1,0,0, 0,0,0, 1,0,0, 0,0,0, 0,0,0, 0,0,0]"
      "set (get_valid_capture_actions (env_of g)) = {(''capture'', Some 6, None)}"
    by (cases "play new_session opening_protected") auto
  have "case play new_session opening_waived of None \<Rightarrow> False
     | Some g \<Rightarrow> capture_pending g \<and> well_formed (env_of g)
         \<and> board (env_of g) = [1,1,1, -1,-1,-1, 0,0,0, 0,0,0, 0,0,0, 0,0,0, 0,0,0, 0,0,0]
         \<and> set (get_valid_capture_actions (env_of g)) =
             {(''capture'', Some 3, None), (''capture'', Some 4, None),
              (''capture'', Some 5, None)}"
    by code_simp
  then obtain h where h: "play new_session opening_waived = Some h" "capture_pending h"
      "well_formed (env_of h)"
      "board (env_of h) = [1,1,1, -1,-1,-1, 0,0,0, 0,0,0, 0,0,0, 0,0,0, 0,0,0, 0,0,0]"
      "set (get_valid_capture_actions (env_of h)) =
             {(''capture'', Some 3, None), (''capture'', Some 4, None),
              (''capture'', Some 5, None)}"
    by (cases "play new_session opening_waived") auto
  note G = trans [OF capture_targets [OF g(3), symmetric] g(5)]
  note H = trans [OF capture_targets [OF h(3), symmetric] h(5)]
  show ?thesis
  proof (rule conjI)
    show "\<exists>g. play new_session opening_protected = Some g \<and> capture_pending g
        \<and> well_formed (env_of g)
        \<and> board (env_of g) = [1,1,1, -1,-1,-1, -1,0,0, 0,0,0, 1,0,0, 0,0,0, 0,0,0, 0,0,0]
        \<and> (let opponent = - current_player (env_of g);
                owned = {pos. pos < 24 \<and> board (env_of g) ! pos = opponent};
                protected = {pos \<in> owned. in_complete_mill (board (env_of g)) opponent pos}
            in (\<lambda>pos. ((''capture'', Some (int pos), None) :: action)) `
                 (if owned \<subseteq> protected then owned else owned - protected))
           = {(''capture'', Some 6, None)}"
      by (rule exI [of _ g]) (intro conjI, rule g(1), rule g(2), rule g(3), rule g(4), rule G)
    show "\<exists>g. play new_session opening_waived = Some g \<and> capture_pending g
        \<and> well_formed (env_of g)
        \<and> board (env_of g) = [1,1,1, -1,-1,-1, 0,0,0, 0,0,0, 0,0,0, 0,0,0, 0,0,0, 0,0,0]
        \<and> (let opponent = - current_player (env_of g);
                owned = {pos. pos < 24 \<and> board (env_of g) ! pos = opponent};
                protected = {pos \<in> owned. in_complete_mill (board (env_of g)) opponent pos}
            in (\<lambda>pos. ((''capture'', Some (int pos), None) :: action)) `
                 (if owned \<subseteq> protected then owned else owned - protected))
           = {(''capture'', Some 3, None), (''capture'', Some 4, None),
              (''capture'', Some 5, None)}"
      by (rule exI [of _ h]) (intro conjI, rule h(1), rule h(2), rule h(3), rule h(4), rule H)
  qed
qed

subsection \<open>The state encoder\<close>





subsection \<open>A mill keeps the turn\<close>

lemma capture_owed_cong:
  assumes "board s' = board s0" "p = current_player s0"
  shows "capture_owed s0 t \<longleftrightarrow>
     is_in_mill s' t p \<and> get_valid_capture_actions (s'\<lparr> current_player := p \<rparr>) \<noteq> []"
proof -
  have "get_valid_capture_actions (s'\<lparr> current_player := p \<rparr>) = get_valid_capture_actions s0"
    by (rule get_valid_capture_actions_cong) (simp_all add: assms)
  moreover have "is_in_mill s' t p = is_in_mill s0 t p"
    by (rule is_in_mill_cong) (simp add: assms)
  ultimately show ?thesis
    by (simp add: capture_owed_def assms)
qed

lemma after_placing_result:
  assumes "after_placing s0 t a r0 = (s', r)"
  shows "board s' = board s0"
    and "capture_owed s0 t \<Longrightarrow>
           info r = [''needs_capture'' \<mapsto> True, ''formed_mill'' \<mapsto> True]
           \<and> current_player s' = current_player s0 \<and> \<not> is_done r"
    and "\<not> capture_owed s0 t \<Longrightarrow>
           current_player s' = - current_player s0 \<and> info r ''needs_capture'' = None"
proof -
  have s': "s' = fst (after_placing s0 t a r0)" and r: "r = snd (after_placing s0 t a r0)"
    using assms by simp_all
  show "board s' = board s0" by (simp add: s')
  show "capture_owed s0 t \<Longrightarrow>
           info r = [''needs_capture'' \<mapsto> True, ''formed_mill'' \<mapsto> True]
           \<and> current_player s' = current_player s0 \<and> \<not> is_done r"
    by (simp add: s' r after_placing_player after_placing_info after_placing_done)
  show "\<not> capture_owed s0 t \<Longrightarrow>
           current_player s' = - current_player s0 \<and> info r ''needs_capture'' = None"
    by (simp add: s' r after_placing_player after_placing_info)
qed

text \<open>
  \<^bold>\<open>C2.\<close> A place or move action that leaves the written cell in a complete mill of the
  acting player while at least one capture is enumerated returns \<open>needs_capture\<close> and
  \<open>formed_mill\<close>, both true, and does not change the current player; in every other case
  (no mill, or a mill and no capture to make) the current player becomes the opponent and
  the info holds no \<open>needs_capture\<close>. The board of the returned state is the board after the
  action's own writes, so the mill and the captures are read on it.
\<close>

theorem mill_keeps_turn:
  assumes "well_formed s" and "ty = ''place'' \<or> ty = ''move''"
    and "step s (ty, f, t) = Inr (s', r)"
  shows "(if is_in_mill s' t (current_player s)
             \<and> get_valid_capture_actions (s'\<lparr> current_player := current_player s \<rparr>) \<noteq> []
          then info r ''needs_capture'' = Some True \<and> info r ''formed_mill'' = Some True
               \<and> current_player s' = current_player s \<and> \<not> is_done r
          else current_player s' = - current_player s \<and> info r ''needs_capture'' = None)
       \<and> (ty = ''place'' \<longrightarrow> setitem (board s) t (current_player s) = Inr (board s'))
       \<and> (ty = ''move'' \<longrightarrow>
            (\<exists>b0. setitem (board s) f 0 = Inr b0
                  \<and> setitem b0 t (current_player s) = Inr (board s')))"
proof -
  from assms(2,3) obtain s0 r0 where
    ap: "after_placing s0 t (current_player s) r0 = (s', r)"
    and cp: "current_player s0 = current_player s"
    and pl: "ty = ''place'' \<longrightarrow> setitem (board s) t (current_player s) = Inr (board s0)"
    and mv: "ty = ''move'' \<longrightarrow>
            (\<exists>b0. setitem (board s) f 0 = Inr b0
                  \<and> setitem b0 t (current_player s) = Inr (board s0))"
    by (auto simp: step_def Let_def split: sum.splits)
  note res = after_placing_result [OF ap]
  have owed: "capture_owed s0 t \<longleftrightarrow>
     is_in_mill s' t (current_player s)
     \<and> get_valid_capture_actions (s'\<lparr> current_player := current_player s \<rparr>) \<noteq> []"
    by (rule capture_owed_cong) (simp_all add: res(1) cp)
  show ?thesis
    using res(2,3) pl mv unfolding owed [symmetric] res(1) cp
    by (cases "capture_owed s0 t") simp_all
qed


theorem mill_keeps_turn_witness:
  "(\<exists>g s' r. play new_session opening_pair = Some g \<and> well_formed (env_of g)
        \<and> current_player (env_of g) = 1
        \<and> step (env_of g) (''place'', None, Some 2) = Inr (s', r)
        \<and> is_in_mill s' (Some 2) 1
        \<and> get_valid_capture_actions (s'\<lparr> current_player := 1 \<rparr>) \<noteq> []
        \<and> info r ''needs_capture'' = Some True \<and> info r ''formed_mill'' = Some True
        \<and> current_player s' = 1 \<and> \<not> is_done r)
   \<and> (\<exists>s' r. well_formed lone_pair \<and> current_player lone_pair = 1
        \<and> step lone_pair (''place'', None, Some 2) = Inr (s', r)
        \<and> is_in_mill s' (Some 2) 1
        \<and> get_valid_capture_actions (s'\<lparr> current_player := 1 \<rparr>) = []
        \<and> current_player s' = - 1 \<and> info r ''needs_capture'' = None)"
proof -
  have "case play new_session opening_pair of None \<Rightarrow> False
     | Some g \<Rightarrow> well_formed (env_of g) \<and> current_player (env_of g) = 1
         \<and> (case step (env_of g) (''place'', None, Some 2) of Inl e \<Rightarrow> False
             | Inr (s', r) \<Rightarrow> is_in_mill s' (Some 2) 1
                 \<and> get_valid_capture_actions (s'\<lparr> current_player := 1 \<rparr>) \<noteq> [])"
    by code_simp
  then obtain g s' r where g: "play new_session opening_pair = Some g"
      "well_formed (env_of g)" "current_player (env_of g) = 1"
      "step (env_of g) (''place'', None, Some 2) = Inr (s', r)"
      "is_in_mill s' (Some 2) 1"
      "get_valid_capture_actions (s'\<lparr> current_player := 1 \<rparr>) \<noteq> []"
    by (cases "play new_session opening_pair";
        cases "step (env_of (the (play new_session opening_pair))) (''place'', None, Some 2)")
       auto
  have "case step lone_pair (''place'', None, Some 2) of Inl e \<Rightarrow> False
     | Inr (s', r) \<Rightarrow> well_formed lone_pair \<and> current_player lone_pair = 1
         \<and> is_in_mill s' (Some 2) 1
         \<and> get_valid_capture_actions (s'\<lparr> current_player := 1 \<rparr>) = []"
    by code_simp
  then obtain s2 r2 where h: "well_formed lone_pair" "current_player lone_pair = 1"
      "step lone_pair (''place'', None, Some 2) = Inr (s2, r2)"
      "is_in_mill s2 (Some 2) 1"
      "get_valid_capture_actions (s2\<lparr> current_player := 1 \<rparr>) = []"
    by (cases "step lone_pair (''place'', None, Some 2)") auto
  have A: "info r ''needs_capture'' = Some True \<and> info r ''formed_mill'' = Some True
        \<and> current_player s' = 1 \<and> \<not> is_done r"
    using mill_keeps_turn [OF g(2) _ g(4)] g(3) g(5) g(6) by simp
  have B: "current_player s2 = - 1 \<and> info r2 ''needs_capture'' = None"
    using mill_keeps_turn [OF h(1) _ h(3)] h(2) h(4) h(5) by simp
  show ?thesis
  proof (rule conjI)
    show "\<exists>g s' r. play new_session opening_pair = Some g \<and> well_formed (env_of g)
        \<and> current_player (env_of g) = 1
        \<and> step (env_of g) (''place'', None, Some 2) = Inr (s', r)
        \<and> is_in_mill s' (Some 2) 1
        \<and> get_valid_capture_actions (s'\<lparr> current_player := 1 \<rparr>) \<noteq> []
        \<and> info r ''needs_capture'' = Some True \<and> info r ''formed_mill'' = Some True
        \<and> current_player s' = 1 \<and> \<not> is_done r"
      using g A by (intro exI [of _ g] exI [of _ s'] exI [of _ r]) simp
    show "\<exists>s' r. well_formed lone_pair \<and> current_player lone_pair = 1
        \<and> step lone_pair (''place'', None, Some 2) = Inr (s', r)
        \<and> is_in_mill s' (Some 2) 1
        \<and> get_valid_capture_actions (s'\<lparr> current_player := 1 \<rparr>) = []
        \<and> current_player s' = - 1 \<and> info r ''needs_capture'' = None"
      using h B by (intro exI [of _ s2] exI [of _ r2]) simp
  qed
qed

subsection \<open>Captures count as moves\<close>

text \<open>
  \<^bold>\<open>C10.\<close> A capture adds exactly one to the move counter, as a placement and a movement
  do, so a turn that closes a mill and then captures adds two. The move-limit test can
  therefore become true for the first time on the capture of a turn: in the endgame position
  with 199 actions played, the move that closes the mill brings the counter to 200 and
  returns with a capture owed and the game not done; the capture brings it to 201 and the
  step returns done with the winner 0, the draw.
\<close>

theorem capture_counts_as_move:
  "(\<forall>s f t s' r. step s (''capture'', f, t) = Inr (s', r) \<longrightarrow> move_count s' = move_count s + 1)
   \<and> (\<forall>s f t s' r. step s (''place'', f, t) = Inr (s', r) \<longrightarrow> move_count s' = move_count s + 1)
   \<and> (\<forall>s f t s' r. step s (''move'', f, t) = Inr (s', r) \<longrightarrow> move_count s' = move_count s + 1)
   \<and> (\<exists>s1 r1 s2 r2.
         (''move'', Some 14, Some 2) \<in> set (get_valid_actions endgame4)
       \<and> step endgame4 (''move'', Some 14, Some 2) = Inr (s1, r1)
       \<and> info r1 ''needs_capture'' = Some True \<and> \<not> is_done r1
       \<and> move_count s1 = 200 \<and> winner s1 = None
       \<and> (''capture'', Some 5, None) \<in> set (get_valid_capture_actions s1)
       \<and> step s1 (''capture'', Some 5, None) = Inr (s2, r2)
       \<and> move_count s2 = move_count endgame4 + 2 \<and> move_count s2 = 201
       \<and> \<not> eliminated s2 1 \<and> has_move s2
       \<and> is_done r2 \<and> winner s2 = Some 0)"
proof -
  have "case step endgame4 (''move'', Some 14, Some 2) of Inl e \<Rightarrow> False
    | Inr (s1, r1) \<Rightarrow>
        (''move'', Some 14, Some 2) \<in> set (get_valid_actions endgame4)
        \<and> info r1 ''needs_capture'' = Some True \<and> \<not> is_done r1
        \<and> move_count s1 = 200 \<and> winner s1 = None
        \<and> (''capture'', Some 5, None) \<in> set (get_valid_capture_actions s1)
        \<and> (case step s1 (''capture'', Some 5, None) of Inl e \<Rightarrow> False
            | Inr (s2, r2) \<Rightarrow>
                move_count s2 = move_count endgame4 + 2 \<and> move_count s2 = 201
                \<and> \<not> eliminated s2 1 \<and> has_move s2
                \<and> is_done r2 \<and> winner s2 = Some 0)"
    by code_simp
  then have ex: "\<exists>s1 r1 s2 r2.
         (''move'', Some 14, Some 2) \<in> set (get_valid_actions endgame4)
       \<and> step endgame4 (''move'', Some 14, Some 2) = Inr (s1, r1)
       \<and> info r1 ''needs_capture'' = Some True \<and> \<not> is_done r1
       \<and> move_count s1 = 200 \<and> winner s1 = None
       \<and> (''capture'', Some 5, None) \<in> set (get_valid_capture_actions s1)
       \<and> step s1 (''capture'', Some 5, None) = Inr (s2, r2)
       \<and> move_count s2 = move_count endgame4 + 2 \<and> move_count s2 = 201
       \<and> \<not> eliminated s2 1 \<and> has_move s2
       \<and> is_done r2 \<and> winner s2 = Some 0"
    by (auto split: sum.splits prod.splits)
  have "\<And>s f t s' r. step s (''capture'', f, t) = Inr (s', r) \<Longrightarrow> move_count s' = move_count s + 1"
    by (drule step_move_count) simp
  moreover
  have "\<And>s f t s' r. step s (''place'', f, t) = Inr (s', r) \<Longrightarrow> move_count s' = move_count s + 1"
    by (drule step_move_count) simp
  moreover
  have "\<And>s f t s' r. step s (''move'', f, t) = Inr (s', r) \<Longrightarrow> move_count s' = move_count s + 1"
    by (drule step_move_count) simp
  ultimately show ?thesis
    using ex by blast
qed

theorem capture_counts_as_move_witness:
  "\<exists>g s' r. play new_session opening_protected = Some g
      \<and> (''capture'', Some 6, None) \<in> set (get_valid_capture_actions (env_of g))
      \<and> step (env_of g) (''capture'', Some 6, None) = Inr (s', r)
      \<and> move_count (env_of g) = 10 \<and> move_count s' = 11"
proof -
  have "case play new_session opening_protected of None \<Rightarrow> False
     | Some g \<Rightarrow> (''capture'', Some 6, None) \<in> set (get_valid_capture_actions (env_of g))
         \<and> move_count (env_of g) = 10
         \<and> (case step (env_of g) (''capture'', Some 6, None) of Inl e \<Rightarrow> False
             | Inr x \<Rightarrow> True)"
    by code_simp
  then obtain g s' r where g: "play new_session opening_protected = Some g"
      "(''capture'', Some 6, None) \<in> set (get_valid_capture_actions (env_of g))"
      "move_count (env_of g) = 10"
      "step (env_of g) (''capture'', Some 6, None) = Inr (s', r)"
    by (cases "play new_session opening_protected";
        cases "step (env_of (the (play new_session opening_protected))) (''capture'', Some 6, None)")
       auto
  from capture_counts_as_move g(4) have "move_count s' = move_count (env_of g) + 1"
    by blast
  with g show ?thesis
    by (intro exI [of _ g] exI [of _ s'] exI [of _ r]) simp
qed

subsection \<open>Terminal conditions\<close>

lemma step_completed:
  assumes "step s (ty, f, t) = Inr (s', r)" and "info r ''needs_capture'' = None"
  shows "\<exists>s0 r0. finish s0 (current_player s) r0 = (s', r)"
proof -
  have ap: "\<exists>s0 r0. finish s0 (current_player s) r0 = (s', r)"
    if a: "after_placing s1 t (current_player s) r1 = (s', r)" for s1 r1
  proof -
    have "\<not> capture_owed s1 t"
      using after_placing_result(2) [OF a] assms(2) by auto
    then show ?thesis
      using a by (auto simp: after_placing_cases split: if_splits)
  qed
  from assms(1) show ?thesis
    by (auto simp: step_def Let_def split: if_splits sum.splits intro: ap)
qed

lemma eliminated_winner [simp]: "eliminated (s\<lparr> winner := w \<rparr>) a = eliminated s a"
  by (simp add: eliminated_def)

lemma finish_verdict:
  assumes "finish s0 a r0 = (s', r)"
  shows "is_done r \<longleftrightarrow> move_count s' > 200 \<or> eliminated s' a \<or> \<not> has_move s'"
    and "winner s' =
           (if move_count s' > 200 then Some 0
            else if eliminated s' a \<or> \<not> has_move s' then Some a
            else winner s0)"
proof -
  have s': "s' = fst (finish s0 a r0)" and r: "r = snd (finish s0 a r0)"
    using assms by simp_all
  show "is_done r \<longleftrightarrow> move_count s' > 200 \<or> eliminated s' a \<or> \<not> has_move s'"
    unfolding r s' by (simp add: finish_done finish_env Let_def)
  show "winner s' =
           (if move_count s' > 200 then Some 0
            else if eliminated s' a \<or> \<not> has_move s' then Some a
            else winner s0)"
    unfolding s' by (simp add: finish_env Let_def)
qed

text \<open>Below the limit, elimination decides the step: a completed step (one that does not
  return with a capture owed) at whose end the opponent of the acting player is eliminated
  and the counter is at most 200 is done and won by the acting player.\<close>

lemma elimination_within_limit:
  assumes "step s (ty, f, t) = Inr (s', r)" and "info r ''needs_capture'' = None"
    and "eliminated s' (current_player s)" and "move_count s' \<le> 200"
  shows "is_done r \<and> winner s' = Some (current_player s)"
proof -
  from step_completed [OF assms(1,2)] obtain s0 r0
    where fin: "finish s0 (current_player s) r0 = (s', r)" by blast
  show ?thesis
    using finish_verdict [OF fin] assms(3,4) by simp
qed

text \<open>The long game ends with a capture owed by player -1 after 200 actions, player 1
  holding three pieces in the movement phase; the capture on 13, action 201, leaves two.\<close>

lemma long_game_end:
  "length long_game = 200
   \<and> (case play new_session long_game of None \<Rightarrow> False
      | Some g \<Rightarrow>
          move_count (env_of g) = 200 \<and> \<not> game_over g \<and> capture_pending g
        \<and> current_player (env_of g) = - 1 \<and> global_phase (env_of g) = Movement
        \<and> pieces_on_board (env_of g) 1 = 3 \<and> winner (env_of g) = None
        \<and> board (env_of g) = [-1,-1,-1, 0,0,-1, 0,0,-1, 0,0,0, 1,1,0, 1,-1,0, -1,0,-1, -1,0,0]
        \<and> (case step (env_of g) (''capture'', Some 13, None) of Inl e \<Rightarrow> False
            | Inr (s', r) \<Rightarrow>
                move_count s' = 201 \<and> pieces_on_board s' 1 = 2
              \<and> global_phase s' = Movement \<and> is_done r \<and> winner s' = Some 0)
        \<and> (case drive g (''capture'', Some 13, None) of None \<Rightarrow> False
            | Some g' \<Rightarrow>
                move_count (env_of g') = 201 \<and> eliminated (env_of g') (- 1)
              \<and> game_over g' \<and> winner (env_of g') = Some 0))"
  by code_simp

text \<open>
  \<^bold>\<open>C1.\<close> The claim is that elimination and blockade take priority over the move-limit
  draw. The source tests the move limit last and on every path, where the blockade test
  before it is guarded by \<open>not done\<close>; so a step on which the winning condition and the
  limit meet ends as a draw. Two plays through the driver show it. The long game is a legal
  game of 200 actions from a fresh session; its action 201, the capture on 13 by player -1,
  leaves player 1 with two pieces outside the placement phase, and the step returns done
  with the winner 0. In the blockade position, the move of player 1 on action 201 leaves
  player -1 without any legal action, and the step returns done with the winner 0.
\<close>

theorem draw_overrides_win:
  "(\<exists>g g'. play new_session long_game = Some g \<and> length long_game = 200
        \<and> current_player (env_of g) = - 1
        \<and> drive g (''capture'', Some 13, None) = Some g'
        \<and> eliminated (env_of g') (- 1) \<and> move_count (env_of g') = 201
        \<and> game_over g' \<and> winner (env_of g') = Some 0)
   \<and> (\<exists>g. play (session_at blockade_example) [(''move'', Some 19, Some 22)] = Some g
        \<and> current_player (env_of g) = - 1
        \<and> \<not> eliminated (env_of g) 1 \<and> \<not> has_move (env_of g)
        \<and> get_valid_actions (env_of g) = [] \<and> move_count (env_of g) = 201
        \<and> game_over g \<and> winner (env_of g) = Some 0)"
proof -
  have "\<exists>g g'. play new_session long_game = Some g \<and> length long_game = 200
        \<and> current_player (env_of g) = - 1
        \<and> drive g (''capture'', Some 13, None) = Some g'
        \<and> eliminated (env_of g') (- 1) \<and> move_count (env_of g') = 201
        \<and> game_over g' \<and> winner (env_of g') = Some 0"
    using long_game_end by (auto split: option.splits)
  moreover
  have "case play (session_at blockade_example) [(''move'', Some 19, Some 22)]
        of None \<Rightarrow> False
        | Some g \<Rightarrow> current_player (env_of g) = - 1
            \<and> \<not> eliminated (env_of g) 1 \<and> \<not> has_move (env_of g)
            \<and> get_valid_actions (env_of g) = [] \<and> move_count (env_of g) = 201
            \<and> game_over g \<and> winner (env_of g) = Some 0"
    by code_simp
  then have "\<exists>g. play (session_at blockade_example) [(''move'', Some 19, Some 22)] = Some g
        \<and> current_player (env_of g) = - 1
        \<and> \<not> eliminated (env_of g) 1 \<and> \<not> has_move (env_of g)
        \<and> get_valid_actions (env_of g) = [] \<and> move_count (env_of g) = 201
        \<and> game_over g \<and> winner (env_of g) = Some 0"
    by (auto split: option.splits)
  ultimately show ?thesis by (rule conjI)
qed

text \<open>
  \<^bold>\<open>C8.\<close> The claim is that a step outside the placement phase that leaves the opponent
  with fewer than three pieces returns done with the acting player as the winner. Up to the
  move limit this is \<open>elimination_within_limit\<close> above. On action 201 it fails, by the
  unguarded move-limit test: at the end of the long game player -1 owes a capture in the
  movement phase, player 1 holds three pieces; the capture on 13 leaves two, and the step
  returns done with the winner 0, not -1.
\<close>

theorem elimination_at_move_limit:
  "\<exists>g s' r. play new_session long_game = Some g
     \<and> capture_pending g \<and> \<not> game_over g \<and> current_player (env_of g) = - 1
     \<and> global_phase (env_of g) = Movement \<and> pieces_on_board (env_of g) 1 = 3
     \<and> move_count (env_of g) = 200
     \<and> board (env_of g) = [-1,-1,-1, 0,0,-1, 0,0,-1, 0,0,0, 1,1,0, 1,-1,0, -1,0,-1, -1,0,0]
     \<and> step (env_of g) (''capture'', Some 13, None) = Inr (s', r)
     \<and> global_phase s' = Movement \<and> pieces_on_board s' 1 = 2
     \<and> is_done r \<and> winner s' = Some 0 \<and> winner s' \<noteq> Some (- 1)"
  using long_game_end by (auto split: option.splits sum.splits)

subsection \<open>Blockade\<close>

lemma setitem_length: "setitem b pos v = Inr b' \<Longrightarrow> length b' = length b"
  by (auto simp: setitem_def split: option.splits if_splits)

lemma setitem_in_range:
  "pos < length b \<Longrightarrow> setitem b (Some (int pos)) v = Inr (b[pos := v])"
  by (simp add: setitem_def)

lemma step_board_length:
  assumes "step s (ty, f, t) = Inr (s', r)"
  shows "length (board s') = length (board s)"
  using assms
  by (auto simp: step_def Let_def split: if_splits sum.splits
      dest!: arg_cong [where f = "\<lambda>x. board (fst x)"] dest: setitem_length)
     (metis setitem_length)

lemma step_player:
  assumes "step s (ty, f, t) = Inr (s', r)"
  shows "current_player s' = current_player s \<or> current_player s' = - current_player s"
  using assms
  by (auto simp: step_def Let_def after_placing_player split: if_splits sum.splits
      dest!: arg_cong [where f = "\<lambda>x. current_player (fst x)"])

lemma step_well_formed:
  assumes "well_formed s" and "step s (ty, f, t) = Inr (s', r)"
  shows "well_formed s'"
  using assms(1) step_board_length [OF assms(2)] step_player [OF assms(2)]
  by (auto simp: well_formed_def)





lemma in_get_valid_actions:
  "a \<in> set (get_valid_actions s) \<longleftrightarrow>
     (case player_phase s (current_player s) of
        Placement \<Rightarrow> pieces_in_hand s (current_player s) > 0
          \<and> (\<exists>i < 24. board s ! i = 0 \<and> a = (''place'', None, Some (int i)))
      | Movement \<Rightarrow> (\<exists>f < 24. board s ! f = current_player s
          \<and> (\<exists>t \<in> set (ADJACENCY ! f). board s ! t = 0
                \<and> a = (''move'', Some (int f), Some (int t))))
      | Flying \<Rightarrow> (\<exists>f < 24. board s ! f = current_player s
          \<and> (\<exists>t < 24. board s ! t = 0 \<and> a = (''move'', Some (int f), Some (int t)))))"
  by (cases "player_phase s (current_player s)")
     (auto simp: get_valid_actions_def BOARD_POSITIONS_def Let_def)






subsection \<open>Phases\<close>

lemma finish_phases:
  "global_phase (fst (finish s a r0)) = global_phase (phase_transition s)"
  "player_phase (fst (finish s a r0)) = player_phase (flying_check (phase_transition s))"
  by (simp_all add: finish_env Let_def)

lemma phase_transition_global:
  "global_phase (phase_transition s) =
     (if global_phase s = Placement \<and> pieces_in_hand s 1 = 0 \<and> pieces_in_hand s (-1) = 0
      then Movement else global_phase s)"
  by (simp add: phase_transition_def)

lemma phase_transition_player:
  "global_phase s \<noteq> Placement \<Longrightarrow> player_phase (phase_transition s) = player_phase s"
  by (simp add: phase_transition_def)

lemma flying_check_keeps:
  "player_phase s p = Flying \<Longrightarrow> player_phase (flying_check s) p = Flying"
  by (auto simp: flying_check_def)

lemma flying_check_new:
  "player_phase (flying_check s) p = Flying \<Longrightarrow>
     player_phase s p = Flying \<or> global_phase s = Movement"
  by (auto simp: flying_check_def split: if_splits)

lemma finish_phase_facts:
  assumes "finish s0 a r0 = (s', r)"
  shows "global_phase s0 = Movement \<Longrightarrow> global_phase s' = Movement"
    and "global_phase s0 = Placement \<Longrightarrow>
           (global_phase s' = Movement \<longleftrightarrow> pieces_in_hand s' 1 = 0 \<and> pieces_in_hand s' (-1) = 0)
           \<and> (global_phase s' \<noteq> Movement \<longrightarrow> global_phase s' = Placement)"
    and "global_phase s0 = Movement \<Longrightarrow> player_phase s0 p = Flying \<Longrightarrow> player_phase s' p = Flying"
    and "player_phase s' p = Flying \<Longrightarrow> player_phase s0 p = Flying \<or> global_phase s' = Movement"
proof -
  have s': "s' = fst (finish s0 a r0)" using assms by simp
  show "global_phase s0 = Movement \<Longrightarrow> global_phase s' = Movement"
    by (simp add: s' finish_phases phase_transition_global)
  show "global_phase s0 = Placement \<Longrightarrow>
           (global_phase s' = Movement \<longleftrightarrow> pieces_in_hand s' 1 = 0 \<and> pieces_in_hand s' (-1) = 0)
           \<and> (global_phase s' \<noteq> Movement \<longrightarrow> global_phase s' = Placement)"
    by (simp add: s' finish_phases phase_transition_global)
  show "global_phase s0 = Movement \<Longrightarrow> player_phase s0 p = Flying \<Longrightarrow> player_phase s' p = Flying"
    by (simp add: s' finish_phases phase_transition_player flying_check_keeps)
  show "player_phase s' p = Flying \<Longrightarrow> player_phase s0 p = Flying \<or> global_phase s' = Movement"
  proof -
    assume "player_phase s' p = Flying"
    then have "player_phase (phase_transition s0) p = Flying
                 \<or> global_phase (phase_transition s0) = Movement"
      unfolding s' finish_phases by (rule flying_check_new)
    then show ?thesis
      by (auto simp: s' finish_phases phase_transition_def split: if_splits)
  qed
qed

text \<open>Every non-raising step either returns early with the phases untouched, or ends in
  \<open>finish\<close> applied to a state with the phases of the state before.\<close>

lemma step_shape:
  assumes "step s (ty, f, t) = Inr (s', r)"
  shows "(info r ''needs_capture'' = Some True
            \<and> global_phase s' = global_phase s \<and> player_phase s' = player_phase s)
       \<or> (info r ''needs_capture'' = None
            \<and> (\<exists>s0 r0. finish s0 (current_player s) r0 = (s', r)
                  \<and> global_phase s0 = global_phase s \<and> player_phase s0 = player_phase s))"
proof -
  have ap: "(info r ''needs_capture'' = Some True
            \<and> global_phase s' = global_phase s \<and> player_phase s' = player_phase s)
       \<or> (info r ''needs_capture'' = None
            \<and> (\<exists>s0 r0. finish s0 (current_player s) r0 = (s', r)
                  \<and> global_phase s0 = global_phase s \<and> player_phase s0 = player_phase s))"
    if a: "after_placing s1 t (current_player s) r1 = (s', r)"
      and g: "global_phase s1 = global_phase s" "player_phase s1 = player_phase s" for s1 r1
  proof (cases "capture_owed s1 t")
    case True
    then have "s' = s1\<lparr> last_mill_formed := True \<rparr>"
      using a by (simp add: after_placing_cases capture_owed_result_def)
    then show ?thesis
      using after_placing_result(2) [OF a True] g by simp
  next
    case False
    have "\<exists>s0 r0. finish s0 (current_player s) r0 = (s', r)
                  \<and> global_phase s0 = global_phase s \<and> player_phase s0 = player_phase s"
      using a False g by (auto simp: after_placing_cases split: if_splits)
    then show ?thesis
      using after_placing_result(3) [OF a False] by simp
  qed
  have fin: "(info r ''needs_capture'' = Some True
            \<and> global_phase s' = global_phase s \<and> player_phase s' = player_phase s)
       \<or> (info r ''needs_capture'' = None
            \<and> (\<exists>s0 r0. finish s0 (current_player s) r0 = (s', r)
                  \<and> global_phase s0 = global_phase s \<and> player_phase s0 = player_phase s))"
    if a: "finish s1 (current_player s) r1 = (s', r)"
      and g: "global_phase s1 = global_phase s" "player_phase s1 = player_phase s" for s1 r1
  proof -
    have "info r = info (snd (finish s1 (current_player s) r1))" using a by simp
    then have "info r ''needs_capture'' = None" by (simp add: finish_info)
    then show ?thesis using a g by blast
  qed
  from assms have "(\<exists>s1 r1. finish s1 (current_player s) r1 = (s', r)
            \<and> global_phase s1 = global_phase s \<and> player_phase s1 = player_phase s)
       \<or> (\<exists>s1 r1. after_placing s1 t (current_player s) r1 = (s', r)
            \<and> global_phase s1 = global_phase s \<and> player_phase s1 = player_phase s)"
    by (simp add: step_def Let_def split: if_splits sum.splits) fastforce+
  then show ?thesis
    using ap fin by blast
qed

lemma phases_consistent_reset: "phases_consistent reset"
  by (simp add: phases_consistent_def reset_def)

lemma step_phases_consistent:
  assumes "phases_consistent s" and "step s (ty, f, t) = Inr (s', r)"
  shows "phases_consistent s'"
  using step_shape [OF assms(2)]
proof (elim disjE conjE exE)
  assume "global_phase s' = global_phase s" "player_phase s' = player_phase s"
  then show ?thesis using assms(1) by (simp add: phases_consistent_def)
next
  fix s0 r0
  assume fin: "finish s0 (current_player s) r0 = (s', r)"
    and g: "global_phase s0 = global_phase s" "player_phase s0 = player_phase s"
  note ff = finish_phase_facts [OF fin]
  have gp: "global_phase s' = Placement \<or> global_phase s' = Movement"
    using assms(1) ff(1) ff(2) g(1) by (auto simp: phases_consistent_def)
  have "global_phase s' = Movement" if "player_phase s' p = Flying" for p
    using ff(4) [OF that] assms(1) ff(1) g by (auto simp: phases_consistent_def)
  with gp show ?thesis by (simp add: phases_consistent_def)
qed

lemma run_phases_consistent:
  "phases_consistent s \<Longrightarrow> run s acts = Inr s' \<Longrightarrow> phases_consistent s'"
proof (induction acts arbitrary: s)
  case Nil
  then show ?case by simp
next
  case (Cons a acts)
  obtain ty f t where a: "a = (ty, f, t)" by (cases a)
  from Cons.prems(2) obtain s1 r1 where
    st: "step s (ty, f, t) = Inr (s1, r1)" and rest: "run s1 acts = Inr s'"
    by (auto simp: a split: sum.splits)
  from Cons.IH [OF step_phases_consistent [OF Cons.prems(1) st] rest] show ?case .
qed

text \<open>
  \<^bold>\<open>C7\<close>, as amended. In every state that a sequence of steps reaches from a fresh session,
  the global phase is placement or movement, and for the next step: a global phase that is
  movement stays movement; a global phase that is placement becomes movement exactly when the
  step completes a turn (it does not return with a capture owed) and both hands are empty at
  its end, and stays placement otherwise; a player whose phase is flying stays flying. So the
  global phase changes once, on the first completed step after which both hands are empty,
  and never back.
\<close>

theorem phase_monotone:
  assumes "run reset acts = Inr s" and "step s (ty, f, t) = Inr (s', r)"
  shows "(global_phase s = Placement \<or> global_phase s = Movement)
     \<and> (global_phase s = Movement \<longrightarrow> global_phase s' = Movement)
     \<and> (global_phase s = Placement \<longrightarrow>
          (global_phase s' = Movement \<longleftrightarrow>
             info r ''needs_capture'' = None
             \<and> pieces_in_hand s' 1 = 0 \<and> pieces_in_hand s' (-1) = 0)
          \<and> (global_phase s' \<noteq> Movement \<longrightarrow> global_phase s' = Placement))
     \<and> (\<forall>p. player_phase s p = Flying \<longrightarrow> player_phase s' p = Flying)"
proof -
  have inv: "phases_consistent s"
    using run_phases_consistent [OF phases_consistent_reset assms(1)] .
  from step_shape [OF assms(2)] show ?thesis
  proof (elim disjE conjE exE)
    assume "info r ''needs_capture'' = Some True"
      "global_phase s' = global_phase s" "player_phase s' = player_phase s"
    then show ?thesis using inv by (auto simp: phases_consistent_def)
  next
    fix s0 r0
    assume nc: "info r ''needs_capture'' = None"
      and fin: "finish s0 (current_player s) r0 = (s', r)"
      and g: "global_phase s0 = global_phase s" "player_phase s0 = player_phase s"
    note ff = finish_phase_facts [OF fin]
    have fly: "player_phase s' p = Flying" if "player_phase s p = Flying" for p
    proof -
      from inv that have "global_phase s = Movement" by (auto simp: phases_consistent_def)
      then show ?thesis using ff(3) [of p] that g by simp
    qed
    show ?thesis
      using inv ff(1) ff(2) g(1) nc fly by (auto simp: phases_consistent_def)
  qed
qed

theorem phase_monotone_witness:
  "\<exists>s s' r. run reset closing_opening = Inr s
      \<and> step s (''capture'', Some 3, None) = Inr (s', r)
      \<and> global_phase s = Placement \<and> info r ''needs_capture'' = None
      \<and> pieces_in_hand s' 1 = 0 \<and> pieces_in_hand s' (- 1) = 0
      \<and> global_phase s' = Movement"
proof -
  have "case run reset closing_opening of Inl e \<Rightarrow> False
    | Inr s \<Rightarrow> global_phase s = Placement
        \<and> (case step s (''capture'', Some 3, None) of Inl e \<Rightarrow> False
            | Inr (s', r) \<Rightarrow> info r ''needs_capture'' = None
                \<and> pieces_in_hand s' 1 = 0 \<and> pieces_in_hand s' (- 1) = 0)"
    by code_simp
  then obtain s s' r where h: "run reset closing_opening = Inr s"
      "global_phase s = Placement"
      "step s (''capture'', Some 3, None) = Inr (s', r)"
      "info r ''needs_capture'' = None"
      "pieces_in_hand s' 1 = 0" "pieces_in_hand s' (- 1) = 0"
    by (cases "run reset closing_opening";
        cases "step (projr (run reset closing_opening)) (''capture'', Some 3, None)") auto
  have "global_phase s' = Movement"
    using phase_monotone [OF h(1) h(3)] h(2) h(4) h(5) h(6) by simp
  with h show ?thesis
    by (intro exI [of _ s] exI [of _ s'] exI [of _ r]) simp
qed

text \<open>The claim as stated fails when the last placement closes a mill: after the
  eighteenth placement both hands are empty for the first time (player -1 held one piece
  before it), a capture is owed, and the global phase and the phase of the player to act are
  still placement; the phase becomes movement on the capture that follows.\<close>

theorem flip_waits_for_capture:
  "play new_session (butlast closing_opening) \<noteq> None
   \<and> pieces_in_hand closing_before 1 = 0 \<and> pieces_in_hand closing_before (- 1) = 1
   \<and> global_phase closing_before = Placement
   \<and> play new_session closing_opening \<noteq> None
   \<and> pieces_in_hand closing_after 1 = 0 \<and> pieces_in_hand closing_after (- 1) = 0
   \<and> capture_pending (the (play new_session closing_opening))
   \<and> global_phase closing_after = Placement
   \<and> player_phase closing_after (current_player closing_after) = Placement
   \<and> play new_session (closing_opening @ [(''capture'', Some 3, None)]) \<noteq> None
   \<and> global_phase closing_captured = Movement"
  by code_simp


subsection \<open>Piece conservation\<close>

lemma count_list_update:
  "i < length xs \<Longrightarrow>
     int (count_list (xs[i := v]) x) =
       int (count_list xs x) - (if xs ! i = x then 1 else 0) + (if v = x then 1 else 0)"
proof (induction xs arbitrary: i)
  case Nil
  then show ?case by simp
next
  case (Cons y ys)
  show ?case
  proof (cases i)
    case 0
    then show ?thesis by simp
  next
    case (Suc n)
    with Cons.prems have "n < length ys" by simp
    from Cons.IH [OF this] show ?thesis by (auto simp: Suc split: if_splits)
  qed
qed

lemma step_place_effect:
  assumes "length (board s) = 24" and "pos < 24"
    and "step s (''place'', fo, Some (int pos)) = Inr (s', r)"
  shows "board s' = (board s)[pos := current_player s]"
    and "pieces_in_hand s' =
           (pieces_in_hand s)(current_player s := pieces_in_hand s (current_player s) - 1)"
    and "pieces_on_board s' =
           (pieces_on_board s)(current_player s := pieces_on_board s (current_player s) + 1)"
  using assms
  by (auto simp: step_def Let_def setitem_in_range
      dest!: arg_cong [where f = fst])

lemma step_move_effect:
  assumes "length (board s) = 24" and "from_pos < 24" and "to_pos < 24"
    and "step s (''move'', Some (int from_pos), Some (int to_pos)) = Inr (s', r)"
  shows "board s' = (board s)[from_pos := 0, to_pos := current_player s]"
    and "pieces_in_hand s' = pieces_in_hand s"
    and "pieces_on_board s' = pieces_on_board s"
  using assms
  by (auto simp: step_def Let_def setitem_in_range
      dest!: arg_cong [where f = fst])

lemma step_capture_effect:
  assumes "length (board s) = 24" and "pos < 24"
    and "step s (''capture'', Some (int pos), to) = Inr (s', r)"
  shows "board s' = (board s)[pos := 0]"
    and "pieces_in_hand s' = pieces_in_hand s"
    and "pieces_on_board s' =
           (pieces_on_board s)(- current_player s := pieces_on_board s (- current_player s) - 1)"
  using assms
  by (auto simp: step_def Let_def setitem_in_range
      dest!: arg_cong [where f = fst])


lemma pieces_of_update:
  "i < length b \<Longrightarrow>
     pieces_of (b[i := v]) x =
       pieces_of b x - (if b ! i = x then 1 else 0) + (if v = x then 1 else 0)"
  unfolding pieces_of_def by (rule count_list_update)

lemma valid_place_hand:
  assumes "(''place'', fo, to) \<in> set (get_valid_actions s)"
  shows "0 < pieces_in_hand s (current_player s)"
  using assms unfolding in_get_valid_actions
  by (cases "player_phase s (current_player s)") auto

lemma drive_unfold:
  assumes "drive g a = Some g'"
  obtains s' r where "a \<in> set (enumerated g)" "step (env_of g) a = Inr (s', r)"
    "env_of g' = s'"
    "captured g' = (if fst a = ''capture''
                    then (captured g)(- current_player (env_of g) :=
                           captured g (- current_player (env_of g)) + 1)
                    else captured g)"
  using assms
  by (auto simp: drive_def split: if_splits sum.splits)

lemma drive_effect:
  assumes wf: "well_formed (env_of g)" and d: "drive g a = Some g'"
  shows "(fst a = ''place'' \<and> placed_one g g')
       \<or> (fst a = ''move'' \<and> moved_one g g')
       \<or> (fst a = ''capture'' \<and> captured_one g g')"
proof -
  let ?e = "env_of g"
  let ?me = "current_player ?e"
  from d obtain s' r where leg: "a \<in> set (enumerated g)"
    and st: "step ?e a = Inr (s', r)" and e': "env_of g' = s'"
    and cap: "captured g' = (if fst a = ''capture''
                    then (captured g)(- ?me := captured g (- ?me) + 1) else captured g)"
    by (rule drive_unfold)
  have len: "length (board ?e) = 24" and me: "?me = 1 \<or> ?me = - 1"
    using wf by (simp_all add: well_formed_def BOARD_POSITIONS_def)
  from leg consider
      (place) pos where "pos < 24" "a = (''place'', None, Some (int pos))"
        "board ?e ! pos = 0" "a \<in> set (get_valid_actions ?e)"
    | (move) f t where "f < 24" "t < 24" "a = (''move'', Some (int f), Some (int t))"
        "board ?e ! f = ?me" "board ?e ! t = 0"
    | (capture) pos where "pos < 24" "a = (''capture'', Some (int pos), None)"
        "board ?e ! pos = - ?me"
    using valid_actions_shape [of a ?e] valid_captures_shape [of a ?e]
    by (auto simp: enumerated_def split: if_splits)
  then show ?thesis
  proof cases
    case place
    note eff = step_place_effect [OF len place(1) st [unfolded place(2)]]
    have "0 < pieces_in_hand ?e ?me"
      using place(4) unfolding place(2) by (rule valid_place_hand)
    then have "placed_one g g'"
      using eff place(1,3) me cap len
      by (auto simp: placed_one_def unchanged_for_def on_board_def e' Let_def place(2) pieces_of_update)
    then show ?thesis by (simp add: place(2))
  next
    case move
    note eff = step_move_effect [OF len move(1,2) st [unfolded move(3)]]
    have ne: "f \<noteq> t" using move(4,5) me by auto
    have "moved_one g g'"
      using eff move(1,2,4,5) me cap len ne
      by (auto simp: moved_one_def unchanged_for_def on_board_def e' Let_def move(3) pieces_of_update)
    then show ?thesis by (simp add: move(3))
  next
    case capture
    note eff = step_capture_effect [OF len capture(1) st [unfolded capture(2)]]
    have "captured_one g g'"
      using eff capture(1,3) me cap len
      by (auto simp: captured_one_def unchanged_for_def on_board_def e' Let_def capture(2) pieces_of_update)
    then show ?thesis by (simp add: capture(2))
  qed
qed


lemma pieces_of_replicate: "pieces_of (replicate n x) y = (if x = y then int n else 0)"
  unfolding pieces_of_def by (induction n) auto

lemma balanced_new_session: "p \<noteq> 0 \<Longrightarrow> balanced new_session p"
  by (simp add: balanced_def new_session_def reset_def on_board_def pieces_of_replicate
      PIECES_PER_PLAYER_def BOARD_POSITIONS_def)

lemma well_formed_reset: "well_formed reset"
  by (simp add: well_formed_def reset_def)

lemma drive_well_formed:
  assumes "well_formed (env_of g)" and "drive g a = Some g'"
  shows "well_formed (env_of g')"
proof -
  obtain ty f t where a: "a = (ty, f, t)" by (cases a)
  from assms(2) obtain s' r where "step (env_of g) a = Inr (s', r)" "env_of g' = s'"
    by (rule drive_unfold)
  then show ?thesis
    using step_well_formed [OF assms(1), of ty f t s' r] by (simp add: a)
qed

lemma balanced_unchanged:
  "balanced g p \<Longrightarrow> unchanged_for g g' p \<Longrightarrow> balanced g' p"
  by (simp add: balanced_def unchanged_for_def)

lemma drive_balanced:
  assumes b: "balanced g 1" "balanced g (- 1)"
    and wf: "well_formed (env_of g)" and d: "drive g a = Some g'"
  shows "balanced g' 1 \<and> balanced g' (- 1)"
proof -
  let ?me = "current_player (env_of g)"
  have me: "?me = 1 \<or> ?me = - 1"
    using wf by (simp add: well_formed_def)
  then have bal: "balanced g ?me" "balanced g (- ?me)"
    using b by auto
  have "balanced g' ?me \<and> balanced g' (- ?me)"
    using drive_effect [OF wf d]
  proof (elim disjE conjE)
    assume p: "placed_one g g'"
    then have "unchanged_for g g' (- ?me)" by (simp add: placed_one_def Let_def)
    from balanced_unchanged [OF bal(2) this] have "balanced g' (- ?me)" .
    moreover have "balanced g' ?me"
      using p bal(1) by (simp add: placed_one_def balanced_def Let_def)
    ultimately show ?thesis by simp
  next
    assume "moved_one g g'"
    then have "unchanged_for g g' ?me" "unchanged_for g g' (- ?me)"
      by (simp_all add: moved_one_def Let_def)
    then show ?thesis
      using bal balanced_unchanged by blast
  next
    assume c: "captured_one g g'"
    then have "unchanged_for g g' ?me" by (simp add: captured_one_def Let_def)
    from balanced_unchanged [OF bal(1) this] have "balanced g' ?me" .
    moreover have "balanced g' (- ?me)"
      using c bal(2) by (simp add: captured_one_def balanced_def Let_def)
    ultimately show ?thesis by simp
  qed
  then show ?thesis
    using me by auto
qed

lemma play_balanced:
  "balanced g 1 \<Longrightarrow> balanced g (- 1) \<Longrightarrow> well_formed (env_of g) \<Longrightarrow>
     play g acts = Some g' \<Longrightarrow>
     balanced g' 1 \<and> balanced g' (- 1) \<and> well_formed (env_of g')"
proof (induction acts arbitrary: g)
  case Nil
  then show ?case by simp
next
  case (Cons a acts)
  from Cons.prems(4) obtain g1 where d: "drive g a = Some g1" and rest: "play g1 acts = Some g'"
    by (auto split: option.splits)
  from drive_balanced [OF Cons.prems(1,2,3) d]
  have b1: "balanced g1 1" "balanced g1 (- 1)" by simp_all
  from Cons.IH [OF b1 drive_well_formed [OF Cons.prems(3) d] rest]
  show ?case .
qed



text \<open>
  \<^bold>\<open>C5.\<close> In every session the driver reaches from a fresh one, for each of the two players
  the pieces in hand, the pieces on board and the pieces captured by the opponent add up to
  9; the counter \<open>pieces_on_board\<close> is the number of that player's pieces on the board; no
  hand and no capture count is negative. Every further call of the driver is a place, a move
  or a capture: a place takes one piece from the acting player's hand and puts one piece of
  theirs on the board; a capture takes one piece of the opponent off the board and adds one
  to the opponent's captured pieces; a move changes no count; nothing else changes.
\<close>

theorem piece_conservation:
  assumes "play new_session acts = Some g"
  shows "(\<forall>p \<in> {1, -1}.
           pieces_in_hand (env_of g) p + pieces_on_board (env_of g) p + captured g p = 9
           \<and> pieces_on_board (env_of g) p = on_board (env_of g) p
           \<and> 0 \<le> pieces_in_hand (env_of g) p \<and> 0 \<le> captured g p)
     \<and> (\<forall>a g'. drive g a = Some g' \<longrightarrow>
           (fst a = ''place'' \<and> placed_one g g')
           \<or> (fst a = ''move'' \<and> moved_one g g')
           \<or> (fst a = ''capture'' \<and> captured_one g g'))"
proof -
  have wf0: "well_formed (env_of new_session)"
    by (simp add: new_session_def well_formed_reset)
  have "balanced new_session 1" "balanced new_session (- 1)"
    by (simp_all add: balanced_new_session)
  from play_balanced [OF this wf0 assms]
  have b: "balanced g 1" "balanced g (- 1)" and wf: "well_formed (env_of g)" by simp_all
  from b have "\<forall>p \<in> {1, -1}.
           pieces_in_hand (env_of g) p + pieces_on_board (env_of g) p + captured g p = 9
           \<and> pieces_on_board (env_of g) p = on_board (env_of g) p
           \<and> 0 \<le> pieces_in_hand (env_of g) p \<and> 0 \<le> captured g p"
    by (simp add: balanced_def)
  moreover have "\<forall>a g'. drive g a = Some g' \<longrightarrow>
           (fst a = ''place'' \<and> placed_one g g')
           \<or> (fst a = ''move'' \<and> moved_one g g')
           \<or> (fst a = ''capture'' \<and> captured_one g g')"
    using drive_effect [OF wf] by blast
  ultimately show ?thesis by (rule conjI)
qed

theorem piece_conservation_witness:
  "\<exists>g g'. play new_session opening_protected = Some g
      \<and> drive g (''capture'', Some 6, None) = Some g'
      \<and> current_player (env_of g) = 1
      \<and> pieces_in_hand (env_of g) 1 = 4 \<and> pieces_on_board (env_of g) 1 = 4
      \<and> on_board (env_of g) 1 = 4 \<and> captured g 1 = 1
      \<and> pieces_in_hand (env_of g) (- 1) = 5 \<and> pieces_on_board (env_of g) (- 1) = 4
      \<and> on_board (env_of g) (- 1) = 4 \<and> captured g (- 1) = 0
      \<and> pieces_on_board (env_of g') (- 1) = 3 \<and> on_board (env_of g') (- 1) = 3
      \<and> captured g' (- 1) = 1 \<and> pieces_in_hand (env_of g') (- 1) = 5"
proof -
  have "case play new_session opening_protected of None \<Rightarrow> False
     | Some g \<Rightarrow> current_player (env_of g) = 1
         \<and> pieces_in_hand (env_of g) 1 = 4 \<and> pieces_on_board (env_of g) 1 = 4
         \<and> pieces_in_hand (env_of g) (- 1) = 5 \<and> pieces_on_board (env_of g) (- 1) = 4
         \<and> drive g (''capture'', Some 6, None) \<noteq> None"
    by code_simp
  then obtain g g' where h: "play new_session opening_protected = Some g"
      "current_player (env_of g) = 1"
      "pieces_in_hand (env_of g) 1 = 4" "pieces_on_board (env_of g) 1 = 4"
      "pieces_in_hand (env_of g) (- 1) = 5" "pieces_on_board (env_of g) (- 1) = 4"
      "drive g (''capture'', Some 6, None) = Some g'"
    by (cases "play new_session opening_protected") auto
  note pc = piece_conservation [OF h(1)]
  from pc have i1: "pieces_in_hand (env_of g) 1 + pieces_on_board (env_of g) 1 + captured g 1 = 9"
      "pieces_on_board (env_of g) 1 = on_board (env_of g) 1"
    and i2: "pieces_in_hand (env_of g) (- 1) + pieces_on_board (env_of g) (- 1)
               + captured g (- 1) = 9"
      "pieces_on_board (env_of g) (- 1) = on_board (env_of g) (- 1)"
    by simp_all
  from pc have "(fst (''capture'', Some (6::int), None :: int option) = ''place'' \<and> placed_one g g')
           \<or> (fst (''capture'', Some (6::int), None :: int option) = ''move'' \<and> moved_one g g')
           \<or> (fst (''capture'', Some (6::int), None :: int option) = ''capture''
                \<and> captured_one g g')"
    using h(7) by (elim conjE allE [of _ "(''capture'', Some 6, None)"] allE [of _ g'] impE)
  then have "captured_one g g'" by simp
  then have eff: "pieces_in_hand (env_of g') (- 1) = pieces_in_hand (env_of g) (- 1)"
      "pieces_on_board (env_of g') (- 1) = pieces_on_board (env_of g) (- 1) - 1"
      "on_board (env_of g') (- 1) = on_board (env_of g) (- 1) - 1"
      "captured g' (- 1) = captured g (- 1) + 1"
    by (simp_all add: captured_one_def Let_def h(2))
  have vals: "on_board (env_of g) 1 = 4" "captured g 1 = 1"
      "on_board (env_of g) (- 1) = 4" "captured g (- 1) = 0"
    using i1 i2 h(3-6) by simp_all
  show ?thesis
    by (rule exI [of _ g], rule exI [of _ g'])
       (simp add: h(1) h(2) h(3) h(4) h(5) h(6) h(7) vals eff)
qed


end
